theory Spec2Isabelle
  imports Main
begin

section \<open>Layout of the shared segment\<close>

text \<open>
  The vault of \<^verbatim>\<open>pg_vault.c\<close> is one shared memory segment: a header
  (\<^verbatim>\<open>lock\<close>, \<^verbatim>\<open>maxitems\<close>, \<^verbatim>\<open>nitems\<close>) followed by an array of fixed-length
  items. An item is three \<^verbatim>\<open>char\<close> arrays, so it has no padding and the item
  array is modelled as the flat sequence of bytes it is in memory: the code
  addresses it with \<^verbatim>\<open>memcpy\<close>, \<^verbatim>\<open>memset\<close>, \<^verbatim>\<open>strcmp\<close> and \<^verbatim>\<open>strlen\<close>, all
  of which work on bytes and none of which knows where a field ends.
\<close>

definition MAX_ID_LENGTH :: nat where
  "MAX_ID_LENGTH = 64"

definition MAX_COMMENT_LENGTH :: nat where
  "MAX_COMMENT_LENGTH = 255"

definition MAX_KEY_LENGTH :: nat where
  "MAX_KEY_LENGTH = 1024"

text \<open>\<^verbatim>\<open>sizeof(VaultItemData)\<close>: three char arrays, alignment 1.\<close>

definition sizeof_VaultItemData :: nat where
  "sizeof_VaultItemData = MAX_ID_LENGTH + MAX_COMMENT_LENGTH + MAX_KEY_LENGTH"

text \<open>
  \<^verbatim>\<open>offsetof(VaultInfoData, items)\<close> and \<^verbatim>\<open>offsetof(VaultInfoData, nitems)\<close>:
  \<^verbatim>\<open>LWLockId\<close> is an enum and the two counters are \<^verbatim>\<open>int\<close>, four bytes each.
\<close>

definition offsetof_nitems :: nat where
  "offsetof_nitems = 8"

definition offsetof_items :: nat where
  "offsetof_items = 12"

text \<open>Offsets of the three fields inside an item, and of item \<open>i\<close> inside the array.\<close>

definition id_off :: "nat \<Rightarrow> nat" where
  "id_off i = i * sizeof_VaultItemData"

definition comment_off :: "nat \<Rightarrow> nat" where
  "comment_off i = i * sizeof_VaultItemData + MAX_ID_LENGTH"

definition key_off :: "nat \<Rightarrow> nat" where
  "key_off i = i * sizeof_VaultItemData + MAX_ID_LENGTH + MAX_COMMENT_LENGTH"

type_synonym mem = "char list"

abbreviation NUL :: char where
  "NUL \<equiv> CHR 0x00"

text \<open>
  \<^verbatim>\<open>VaultInfoData\<close>. The two counters are \<^verbatim>\<open>int\<close> in C; they are never negative
  (\<^verbatim>\<open>nitems\<close> starts at 0 and is decremented only under \<^verbatim>\<open>0 <= i < nitems\<close>,
  \<^verbatim>\<open>maxitems\<close> is a quotient of sizes) and never leave the 32-bit range
  (\<^verbatim>\<open>nitems\<close> is incremented only under \<^verbatim>\<open>nitems < maxitems\<close>), so they are
  natural numbers here. \<open>items\<close> holds the bytes of the segment from
  \<^verbatim>\<open>offsetof(VaultInfoData, items)\<close> to its end.
\<close>

record VaultInfoData =
  lock :: nat
  maxitems :: nat
  nitems :: nat
  items :: mem

text \<open>
  Every \<^verbatim>\<open>elog(ERROR, ...)\<close> of the source is a value of \<open>error\<close>. \<open>OutOfRegion\<close>
  is not raised by the code: it stands for an access outside the segment, where C
  gives no defined behaviour.
\<close>

datatype error =
    IdNull
  | KeyNull
  | IdTooLong
  | CommentTooLong
  | KeyTooLong
  | NotUnique
  | VaultFull
  | OutOfRegion

section \<open>Memory primitives\<close>

text \<open>The segment with the bytes \<open>src\<close> stored from offset \<open>dst\<close> on.\<close>

definition store_bytes :: "mem \<Rightarrow> nat \<Rightarrow> char list \<Rightarrow> mem" where
  "store_bytes m dst src = take dst m @ src @ drop (dst + length src) m"

text \<open>
  \<^verbatim>\<open>memcpy(m + dst, src, length src)\<close> into the segment; \<open>None\<close> when the copy
  would pass the end of the segment.
\<close>

definition memcpy :: "mem \<Rightarrow> nat \<Rightarrow> char list \<Rightarrow> mem option" where
  "memcpy m dst src =
     (if dst + length src \<le> length m then Some (store_bytes m dst src) else None)"

text \<open>\<^verbatim>\<open>memset(m + dst, c, n)\<close>.\<close>

definition memset :: "mem \<Rightarrow> nat \<Rightarrow> char \<Rightarrow> nat \<Rightarrow> mem option" where
  "memset m dst c n = memcpy m dst (replicate n c)"

text \<open>The \<open>n\<close> bytes at \<open>m + src\<close>, as the source operand of a \<^verbatim>\<open>memcpy\<close>.\<close>

definition read_bytes :: "mem \<Rightarrow> nat \<Rightarrow> nat \<Rightarrow> char list option" where
  "read_bytes m src n =
     (if src + n \<le> length m then Some (take n (drop src m)) else None)"

text \<open>
  \<^verbatim>\<open>strcmp(m + p, s) == 0\<close>, where \<open>s\<close> is the content of a C string made by
  \<^verbatim>\<open>text_to_cstring\<close> (a \<^verbatim>\<open>text\<close> value holds no zero byte; the terminator is not
  part of \<open>s\<close>). The comparison walks both strings and stops at the first
  difference or at the terminator of \<open>s\<close>.
\<close>

fun strcmp_eq :: "mem \<Rightarrow> nat \<Rightarrow> string \<Rightarrow> bool option" where
  "strcmp_eq m p [] = (if p < length m then Some (m ! p = NUL) else None)"
| "strcmp_eq m p (c # cs) =
     (if p < length m
      then (if m ! p = c then strcmp_eq m (p + 1) cs else Some False)
      else None)"

text \<open>
  The C string that starts at \<open>m + p\<close>, as \<^verbatim>\<open>strlen\<close> and
  \<^verbatim>\<open>CStringGetTextDatum\<close> read it: every byte up to the first zero byte
  (\<open>cstr\<close>); \<open>None\<close> when the segment ends before a zero byte.
\<close>

definition cstr :: "char list \<Rightarrow> string" where
  "cstr bs = takeWhile (\<lambda>c. c \<noteq> NUL) bs"

definition cstring_at :: "mem \<Rightarrow> nat \<Rightarrow> string option" where
  "cstring_at m p = (if NUL \<in> set (drop p m) then Some (cstr (drop p m)) else None)"

section \<open>The varlena header of PostgreSQL\<close>

text \<open>
  \<^verbatim>\<open>postgres.h\<close> is not part of the repository. The macros the vault uses are
  modelled as PostgreSQL 9.1 defines them on a little-endian machine.
  \<^verbatim>\<open>PG_GETARG_BYTEA_P\<close> detoasts its argument, so the \<^verbatim>\<open>bytea\<close> that \<^verbatim>\<open>add_key\<close>
  holds has the four-byte header \<^verbatim>\<open>len << 2\<close>, where \<^verbatim>\<open>len\<close> counts the header too.
\<close>

definition VARHDRSZ :: nat where
  "VARHDRSZ = 4"

definition bytea_4b :: "char list \<Rightarrow> char list" where
  "bytea_4b data =
     (let h = ((VARHDRSZ + length data) * 4) mod 2 ^ 32
      in [char_of h, char_of (h div 2 ^ 8), char_of (h div 2 ^ 16), char_of (h div 2 ^ 24)] @ data)"

text \<open>\<^verbatim>\<open>VARSIZE_ANY(m + p)\<close>: external, one-byte and four-byte headers.\<close>

definition VARSIZE_ANY :: "mem \<Rightarrow> nat \<Rightarrow> nat option" where
  "VARSIZE_ANY m p =
     (if p < length m then
        (let b0 = (of_char (m ! p) :: nat) in
         if b0 = 1 then
           (if p + 1 < length m then Some (of_char (m ! (p + 1))) else None)
         else if odd b0 then Some (b0 div 2)
         else if p + 3 < length m then
           Some ((b0 + 2 ^ 8 * of_char (m ! (p + 1)) + 2 ^ 16 * of_char (m ! (p + 2))
                  + 2 ^ 24 * of_char (m ! (p + 3))) div 4)
         else None)
      else None)"

section \<open>The operations\<close>

text \<open>
  The loop shared by \<^verbatim>\<open>add_key\<close>, \<^verbatim>\<open>delete_key\<close> and \<^verbatim>\<open>lookup_key\<close>:
  \<^verbatim>\<open>for (i = 0; i < nitems; i++) if (strcmp(items[i].id, id) == 0) { ...; break; }\<close>.
  The result is the index at which the loop breaks, if it does.
\<close>

function scan_items :: "mem \<Rightarrow> nat \<Rightarrow> string \<Rightarrow> nat \<Rightarrow> error + nat option" where
  "scan_items m n ident i =
     (if i < n then
        (case strcmp_eq m (id_off i) ident of
           None \<Rightarrow> Inl OutOfRegion
         | Some True \<Rightarrow> Inr (Some i)
         | Some False \<Rightarrow> scan_items m n ident (i + 1))
      else Inr None)"
  by pat_completeness auto
termination
  by (relation "measure (\<lambda>(m, n, ident, i). n - i)") auto

text \<open>
  \<^verbatim>\<open>add_key\<close>, lines 249 to 256: the three copies into \<^verbatim>\<open>items[nitems]\<close> and the
  increment. The identifier and the comment are copied without their
  terminator (\<^verbatim>\<open>strlen\<close> bytes), the key with its header (\<^verbatim>\<open>VARSIZE_ANY\<close> bytes).
\<close>

definition add_key_copy ::
  "VaultInfoData \<Rightarrow> string \<Rightarrow> char list \<Rightarrow> string option \<Rightarrow> (error + unit) \<times> VaultInfoData" where
  "add_key_copy v ident key comment =
     (case memcpy (items v) (id_off (nitems v)) ident of
        None \<Rightarrow> (Inl OutOfRegion, v)
      | Some m1 \<Rightarrow>
          (case memcpy m1 (key_off (nitems v)) key of
             None \<Rightarrow> (Inl OutOfRegion, v\<lparr>items := m1\<rparr>)
           | Some m2 \<Rightarrow>
               (case (case comment of
                        None \<Rightarrow> Some m2
                      | Some c \<Rightarrow> memcpy m2 (comment_off (nitems v)) c) of
                  None \<Rightarrow> (Inl OutOfRegion, v\<lparr>items := m2\<rparr>)
                | Some m3 \<Rightarrow> (Inr (), v\<lparr>items := m3, nitems := nitems v + 1\<rparr>))))"

text \<open>\<^verbatim>\<open>add_key\<close>, lines 228 to 265: the locked section and the two reports after it.\<close>

definition add_key_locked ::
  "VaultInfoData \<Rightarrow> string \<Rightarrow> char list \<Rightarrow> string option \<Rightarrow> (error + unit) \<times> VaultInfoData" where
  "add_key_locked v ident key comment =
     (case scan_items (items v) (nitems v) ident 0 of
        Inl e \<Rightarrow> (Inl e, v)
      | Inr found \<Rightarrow>
          (let key_id_unique = (found = None);
               vault_is_full = (maxitems v \<le> nitems v)
           in if \<not> vault_is_full \<and> key_id_unique then add_key_copy v ident key comment
              else if \<not> key_id_unique then (Inl NotUnique, v)
              else (Inl VaultFull, v)))"

text \<open>
  \<^verbatim>\<open>add_key(id, key, comment)\<close>. An SQL NULL argument is \<open>None\<close>; the identifier
  and the comment are the contents of the C strings that \<^verbatim>\<open>text_to_cstring\<close>
  returns, the key is the data of the \<^verbatim>\<open>bytea\<close>. The result is the error raised,
  if any, and the segment as the call leaves it.
\<close>

definition add_key ::
  "VaultInfoData \<Rightarrow> string option \<Rightarrow> char list option \<Rightarrow> string option
     \<Rightarrow> (error + unit) \<times> VaultInfoData" where
  "add_key v id_arg key_arg comment_arg =
     (case id_arg of
        None \<Rightarrow> (Inl IdNull, v)
      | Some ident \<Rightarrow>
          (case key_arg of
             None \<Rightarrow> (Inl KeyNull, v)
           | Some data \<Rightarrow>
               if MAX_ID_LENGTH \<le> length ident then (Inl IdTooLong, v)
               else if (case comment_arg of None \<Rightarrow> False
                        | Some c \<Rightarrow> MAX_COMMENT_LENGTH \<le> length c)
                 then (Inl CommentTooLong, v)
               else if MAX_KEY_LENGTH \<le> length data then (Inl KeyTooLong, v)
               else add_key_locked v ident (bytea_4b data) comment_arg))"

text \<open>
  \<^verbatim>\<open>delete_key(id)\<close>: the last item is copied over the first match. When the
  match is the last item, source and destination of the \<^verbatim>\<open>memcpy\<close> coincide and
  the bytes stay as they are.
\<close>

definition delete_key ::
  "VaultInfoData \<Rightarrow> string option \<Rightarrow> (error + unit) \<times> VaultInfoData" where
  "delete_key v id_arg =
     (case id_arg of
        None \<Rightarrow> (Inl IdNull, v)
      | Some ident \<Rightarrow>
          (case scan_items (items v) (nitems v) ident 0 of
             Inl e \<Rightarrow> (Inl e, v)
           | Inr None \<Rightarrow> (Inr (), v)
           | Inr (Some i) \<Rightarrow>
               (let v1 = v\<lparr>nitems := nitems v - 1\<rparr> in
                case read_bytes (items v1) (id_off (nitems v1)) sizeof_VaultItemData of
                  None \<Rightarrow> (Inl OutOfRegion, v1)
                | Some last_item \<Rightarrow>
                    (case memcpy (items v1) (id_off i) last_item of
                       None \<Rightarrow> (Inl OutOfRegion, v1)
                     | Some m1 \<Rightarrow> (Inr (), v1\<lparr>items := m1\<rparr>)))))"

text \<open>
  \<^verbatim>\<open>lookup_key(id)\<close>: a copy of the \<^verbatim>\<open>VARSIZE_ANY\<close> bytes that start at the key field
  of the first match (header included), or SQL NULL.
\<close>

definition lookup_key :: "VaultInfoData \<Rightarrow> string option \<Rightarrow> error + char list option" where
  "lookup_key v id_arg =
     (case id_arg of
        None \<Rightarrow> Inl IdNull
      | Some ident \<Rightarrow>
          (case scan_items (items v) (nitems v) ident 0 of
             Inl e \<Rightarrow> Inl e
           | Inr None \<Rightarrow> Inr None
           | Inr (Some i) \<Rightarrow>
               (case VARSIZE_ANY (items v) (key_off i) of
                  None \<Rightarrow> Inl OutOfRegion
                | Some n \<Rightarrow>
                    (case read_bytes (items v) (key_off i) n of
                       None \<Rightarrow> Inl OutOfRegion
                     | Some key \<Rightarrow> Inr (Some key)))))"

text \<open>What a client sees of a \<^verbatim>\<open>bytea\<close> with a four-byte header: \<^verbatim>\<open>VARDATA\<close>.\<close>

definition VARDATA :: "char list \<Rightarrow> char list" where
  "VARDATA b = drop VARHDRSZ b"

text \<open>
  \<^verbatim>\<open>vault_copy\<close>: the loop \<^verbatim>\<open>for (i = 0; i < copy->nitems; i++)
  memset(copy->items[i].key, 0, MAX_KEY_LENGTH)\<close> on the copy.
\<close>

function strip_keys_loop :: "mem \<Rightarrow> nat \<Rightarrow> nat \<Rightarrow> mem option" where
  "strip_keys_loop m n i =
     (if i < n then
        (case memset m (key_off i) NUL MAX_KEY_LENGTH of
           None \<Rightarrow> None
         | Some m1 \<Rightarrow> strip_keys_loop m1 n (i + 1))
      else Some m)"
  by pat_completeness auto
termination
  by (relation "measure (\<lambda>(m, n, i). n - i)") auto

text \<open>
  \<^verbatim>\<open>vault_copy(strip_keys)\<close>: a copy of the whole segment, then the loop. The
  source never reads its parameter.
\<close>

definition vault_copy :: "bool \<Rightarrow> VaultInfoData \<Rightarrow> error + VaultInfoData" where
  "vault_copy strip_keys v =
     (case strip_keys_loop (items v) (nitems v) 0 of
        None \<Rightarrow> Inl OutOfRegion
      | Some m1 \<Rightarrow> Inr (v\<lparr>items := m1\<rparr>))"

text \<open>
  A tuple of \<^verbatim>\<open>list_keys\<close>: \<^verbatim>\<open>values[0]\<close>, the second column (\<open>None\<close> is SQL NULL,
  \<^verbatim>\<open>nulls[1] = true\<close>) and \<^verbatim>\<open>values[2]\<close>.
\<close>

type_synonym vault_row = "string \<times> char list option \<times> string"

definition list_row :: "VaultInfoData \<Rightarrow> nat \<Rightarrow> error + vault_row" where
  "list_row c call_cntr =
     (case cstring_at (items c) (id_off call_cntr) of
        None \<Rightarrow> Inl OutOfRegion
      | Some a \<Rightarrow>
          (case cstring_at (items c) (comment_off call_cntr) of
             None \<Rightarrow> Inl OutOfRegion
           | Some b \<Rightarrow> Inr (a, None, b)))"

text \<open>The calls of the set-returning function, from \<^verbatim>\<open>call_cntr\<close> to \<^verbatim>\<open>max_calls\<close>.\<close>

function list_from :: "VaultInfoData \<Rightarrow> nat \<Rightarrow> nat \<Rightarrow> error + vault_row list" where
  "list_from c max_calls call_cntr =
     (if call_cntr < max_calls then
        (case list_row c call_cntr of
           Inl e \<Rightarrow> Inl e
         | Inr r \<Rightarrow>
             (case list_from c max_calls (call_cntr + 1) of
                Inl e \<Rightarrow> Inl e
              | Inr rs \<Rightarrow> Inr (r # rs)))
      else Inr [])"
  by pat_completeness auto
termination
  by (relation "measure (\<lambda>(c, max_calls, call_cntr). max_calls - call_cntr)") auto

text \<open>
  \<^verbatim>\<open>list_keys()\<close>, called where a row type is accepted: the snapshot is taken on
  the first call, the tuples are read from it.
\<close>

definition list_keys :: "VaultInfoData \<Rightarrow> error + vault_row list" where
  "list_keys v =
     (case vault_copy True v of
        Inl e \<Rightarrow> Inl e
      | Inr c \<Rightarrow> list_from c (nitems v) 0)"

text \<open>
  \<^verbatim>\<open>delete_keys()\<close>: \<^verbatim>\<open>memset\<close> from \<^verbatim>\<open>nitems\<close> to the end of the segment.
\<close>

definition delete_keys :: "VaultInfoData \<Rightarrow> VaultInfoData" where
  "delete_keys v = v\<lparr>nitems := 0, items := replicate (length (items v)) NUL\<rparr>"

text \<open>
  The range \<^verbatim>\<open>_PG_init\<close> gives to \<^verbatim>\<open>pg_vault.max_size\<close>: from \<^verbatim>\<open>1024*1024\<close> to
  \<^verbatim>\<open>INT_MAX\<close>.
\<close>

definition guc_max_size_ok :: "nat \<Rightarrow> bool" where
  "guc_max_size_ok sz = (1024 * 1024 \<le> sz \<and> sz \<le> 2147483647)"

text \<open>
  \<^verbatim>\<open>pgvault_shmem_startup\<close>. \<^verbatim>\<open>ShmemInitStruct\<close> hands back the segment that
  exists (\<open>Some\<close>, \<^verbatim>\<open>found\<close> is true) or \<open>sz\<close> fresh bytes (\<open>None\<close>); \<open>new_lock\<close> is
  what \<^verbatim>\<open>LWLockAssign\<close> returns. Inside the range of \<open>guc_max_size_ok\<close> the
  \<^verbatim>\<open>size_t\<close> subtraction does not wrap and the quotient fits an \<^verbatim>\<open>int\<close>.
\<close>

definition pgvault_shmem_startup :: "nat \<Rightarrow> nat \<Rightarrow> VaultInfoData option \<Rightarrow> VaultInfoData" where
  "pgvault_shmem_startup sz new_lock found =
     (case found of
        Some v \<Rightarrow> v
      | None \<Rightarrow>
          \<lparr>lock = new_lock,
           maxitems = (sz - offsetof_items) div sizeof_VaultItemData,
           nitems = 0,
           items = replicate (sz - offsetof_items) NUL\<rparr>)"

section \<open>Notions used by the properties\<close>

text \<open>The identifier stored in slot \<open>i\<close>: the C string at \<^verbatim>\<open>items[i].id\<close>.\<close>

definition stored_id :: "VaultInfoData \<Rightarrow> nat \<Rightarrow> string option" where
  "stored_id v i = cstring_at (items v) (id_off i)"

text \<open>The identifiers of the populated slots \<^verbatim>\<open>items[0 .. nitems)\<close> are pairwise distinct.\<close>

definition ids_distinct :: "VaultInfoData \<Rightarrow> bool" where
  "ids_distinct v = distinct (map (stored_id v) [0..<nitems v])"

text \<open>The \<^verbatim>\<open>sizeof(VaultItemData)\<close> bytes of slot \<open>i\<close>.\<close>

definition item_bytes :: "VaultInfoData \<Rightarrow> nat \<Rightarrow> char list" where
  "item_bytes v i = take sizeof_VaultItemData (drop (id_off i) (items v))"

text \<open>The bytes of the identifier and comment fields of slot \<open>i\<close>, and of its comment field.\<close>

definition id_comment_bytes :: "VaultInfoData \<Rightarrow> nat \<Rightarrow> char list" where
  "id_comment_bytes v i = take (MAX_ID_LENGTH + MAX_COMMENT_LENGTH) (drop (id_off i) (items v))"

definition comment_bytes :: "VaultInfoData \<Rightarrow> nat \<Rightarrow> char list" where
  "comment_bytes v i = take MAX_COMMENT_LENGTH (drop (comment_off i) (items v))"

text \<open>The bytes of the key field of slot \<open>i\<close>.\<close>

definition key_bytes :: "VaultInfoData \<Rightarrow> nat \<Rightarrow> char list" where
  "key_bytes v i = take MAX_KEY_LENGTH (drop (key_off i) (items v))"

text \<open>
  The last byte of the identifier field of each of the first \<open>M\<close> slots of \<open>m\<close>
  is zero, and these slots lie inside \<open>m\<close>.
\<close>

definition last_id_bytes :: "nat \<Rightarrow> mem \<Rightarrow> bool" where
  "last_id_bytes M m \<longleftrightarrow>
     id_off M \<le> length m \<and> (\<forall>i<M. m ! (id_off i + (MAX_ID_LENGTH - 1)) = NUL)"

text \<open>
  An invariant of the vault: no more items than slots, the slots inside the
  segment, and every identifier field terminated in its last byte at the latest.
\<close>

definition vault_inv :: "VaultInfoData \<Rightarrow> bool" where
  "vault_inv v \<longleftrightarrow>
     nitems v \<le> maxitems v
     \<and> id_off (maxitems v) \<le> length (items v)
     \<and> (\<forall>i<maxitems v. items v ! (id_off i + (MAX_ID_LENGTH - 1)) = NUL)"

text \<open>The vaults that the operations can produce from a first start-up.\<close>

inductive reachable :: "VaultInfoData \<Rightarrow> bool" where
  startup: "guc_max_size_ok sz \<Longrightarrow> reachable (pgvault_shmem_startup sz l None)"
| add: "reachable v \<Longrightarrow> reachable (snd (add_key v id_arg key_arg comment_arg))"
| delete: "reachable v \<Longrightarrow> reachable (snd (delete_key v id_arg))"
| clear: "reachable v \<Longrightarrow> reachable (delete_keys v)"

text \<open>
  The vault right after the first \<^verbatim>\<open>pgvault_shmem_startup\<close> with the default
  \<^verbatim>\<open>pg_vault.max_size\<close> of 1 MB.
\<close>

definition fresh_vault :: VaultInfoData where
  "fresh_vault = pgvault_shmem_startup (1024 * 1024) 0 None"

text \<open>
  The vault after \<^verbatim>\<open>add_key('a', 'secret', 'first')\<close> and
  \<^verbatim>\<open>add_key('b', 'key', NULL)\<close> on the fresh vault.
\<close>

definition two_item_vault :: VaultInfoData where
  "two_item_vault =
     snd (add_key (snd (add_key fresh_vault (Some ''a'') (Some ''secret'') (Some ''first'')))
            (Some ''b'') (Some ''key'') None)"

text \<open>
  The vault after \<^verbatim>\<open>add_key('a', 'secret', NULL)\<close> and \<^verbatim>\<open>delete_key('a')\<close> on
  the fresh vault.
\<close>

definition deleted_vault :: VaultInfoData where
  "deleted_vault =
     snd (delete_key (snd (add_key fresh_vault (Some ''a'') (Some ''secret'') None)) (Some ''a''))"

section \<open>Facts about the memory primitives\<close>

lemma length_store_bytes:
  "dst + length src \<le> length m \<Longrightarrow> length (store_bytes m dst src) = length m"
  by (simp add: store_bytes_def)

lemma nth_store_bytes:
  assumes "dst + length src \<le> length m" and "k < length m"
  shows "store_bytes m dst src ! k =
           (if dst \<le> k \<and> k < dst + length src then src ! (k - dst) else m ! k)"
proof -
  consider "k < dst" | "dst \<le> k" "k < dst + length src" | "dst + length src \<le> k"
    by linarith
  then show ?thesis
  proof cases
    case 1
    with assms show ?thesis
      by (simp add: store_bytes_def nth_append)
  next
    case 2
    then have "k - dst < length src"
      by linarith
    with 2 assms show ?thesis
      by (simp add: store_bytes_def nth_append)
  next
    case 3
    then have a: "\<not> k < dst" and b: "\<not> k - dst < length src"
      by linarith+
    from 3 have c: "dst + length src + (k - dst - length src) = k"
      by simp
    from assms a b c show ?thesis
      by (simp add: store_bytes_def nth_append)
  qed
qed

lemma length_store_bytes_eval:
  "length (store_bytes m dst src)
     = min dst (length m) + length src + (length m - (dst + length src))"
  by (simp add: store_bytes_def min_def)

lemma length_bytea_4b: "length (bytea_4b d) = 4 + length d"
  by (simp add: bytea_4b_def Let_def)

lemma memcpy_Some:
  "memcpy m dst src = Some m1 \<longleftrightarrow> dst + length src \<le> length m \<and> m1 = store_bytes m dst src"
  by (auto simp: memcpy_def)

lemma memcpy_None: "memcpy m dst src = None \<longleftrightarrow> length m < dst + length src"
  by (auto simp: memcpy_def)

lemma read_bytes_Some:
  "read_bytes m src n = Some bs \<longleftrightarrow> src + n \<le> length m \<and> bs = take n (drop src m)"
  by (auto simp: read_bytes_def)

lemma scan_items_step:
  "i < n \<Longrightarrow> scan_items m n ident i =
     (case strcmp_eq m (id_off i) ident of
        None \<Rightarrow> Inl OutOfRegion
      | Some True \<Rightarrow> Inr (Some i)
      | Some False \<Rightarrow> scan_items m n ident (i + 1))"
  by simp

lemma scan_items_done: "\<not> i < n \<Longrightarrow> scan_items m n ident i = Inr None"
  by simp

declare scan_items.simps [simp del]

lemma strip_keys_loop_step:
  "i < n \<Longrightarrow> strip_keys_loop m n i =
     (case memset m (key_off i) NUL MAX_KEY_LENGTH of
        None \<Rightarrow> None
      | Some m1 \<Rightarrow> strip_keys_loop m1 n (i + 1))"
  by simp

lemma strip_keys_loop_done: "\<not> i < n \<Longrightarrow> strip_keys_loop m n i = Some m"
  by simp

declare strip_keys_loop.simps [simp del]

lemma list_from_step:
  "call_cntr < max_calls \<Longrightarrow> list_from c max_calls call_cntr =
     (case list_row c call_cntr of
        Inl e \<Rightarrow> Inl e
      | Inr r \<Rightarrow>
          (case list_from c max_calls (call_cntr + 1) of
             Inl e \<Rightarrow> Inl e
           | Inr rs \<Rightarrow> Inr (r # rs)))"
  by simp

lemma list_from_done: "\<not> call_cntr < max_calls \<Longrightarrow> list_from c max_calls call_cntr = Inr []"
  by simp

declare list_from.simps [simp del]

lemmas layout_defs =
  MAX_ID_LENGTH_def MAX_COMMENT_LENGTH_def MAX_KEY_LENGTH_def sizeof_VaultItemData_def
  offsetof_items_def offsetof_nitems_def id_off_def comment_off_def key_off_def VARHDRSZ_def

section \<open>C strings and the scan for an identifier\<close>

lemma drop_nth_Cons: "p < length m \<Longrightarrow> drop p m = m ! p # drop (p + 1) m"
  by (metis Cons_nth_drop_Suc Suc_eq_plus1)

lemma cstring_at_Cons:
  assumes "p < length m"
  shows "cstring_at m p =
           (if m ! p = NUL then Some []
            else map_option (\<lambda>t. m ! p # t) (cstring_at m (p + 1)))"
  using assms by (simp add: cstring_at_def cstr_def drop_nth_Cons [of p m])

lemma cstring_at_None: "\<not> p < length m \<Longrightarrow> cstring_at m p = None"
  by (simp add: cstring_at_def)

lemma strcmp_eq_cstring_at:
  "cstring_at m p = Some t \<Longrightarrow> NUL \<notin> set s \<Longrightarrow> strcmp_eq m p s = Some (t = s)"
proof (induction s arbitrary: p t)
  case Nil
  then have p: "p < length m"
    by (cases "p < length m") (simp_all add: cstring_at_None)
  with Nil show ?case
    by (auto simp: cstring_at_Cons split: if_splits)
next
  case (Cons c cs)
  then have p: "p < length m"
    by (cases "p < length m") (simp_all add: cstring_at_None)
  from Cons.prems have c: "c \<noteq> NUL" and cs: "NUL \<notin> set cs"
    by auto
  show ?case
  proof (cases "m ! p = c")
    case True
    with p c Cons.prems(1) obtain t' where t': "cstring_at m (p + 1) = Some t'" and t: "t = c # t'"
      by (auto simp: cstring_at_Cons)
    from Cons.IH [OF t' cs] p True t show ?thesis
      by simp
  next
    case False
    with p Cons.prems(1) have "t \<noteq> c # cs"
      by (auto simp: cstring_at_Cons split: if_splits)
    with p False show ?thesis
      by simp
  qed
qed

lemma cstring_at_strcmp_eq:
  "strcmp_eq m p s = Some True \<Longrightarrow> NUL \<notin> set s \<Longrightarrow> cstring_at m p = Some s"
proof (induction s arbitrary: p)
  case Nil
  then show ?case
    by (auto simp: cstring_at_Cons split: if_splits)
next
  case (Cons c cs)
  then have p: "p < length m" and c: "m ! p = c" and rest: "strcmp_eq m (p + 1) cs = Some True"
    by (auto split: if_splits)
  from Cons.IH [OF rest] Cons.prems(2) have "cstring_at m (p + 1) = Some cs"
    by simp
  with p c Cons.prems(2) show ?case
    by (auto simp: cstring_at_Cons)
qed

lemma scan_items_none:
  "(\<And>j. i \<le> j \<Longrightarrow> j < n \<Longrightarrow> strcmp_eq m (id_off j) ident = Some False)
     \<Longrightarrow> scan_items m n ident i = Inr None"
proof (induction "n - i" arbitrary: i)
  case 0
  then show ?case
    by (simp add: scan_items_done)
next
  case (Suc d)
  then have "i < n"
    by simp
  moreover from Suc.prems this have "strcmp_eq m (id_off i) ident = Some False"
    by simp
  moreover from Suc have "scan_items m n ident (i + 1) = Inr None"
    by simp
  ultimately show ?case
    by (simp add: scan_items_step)
qed

lemma scan_items_first:
  assumes "i0 \<le> i" and "i < n"
    and "strcmp_eq m (id_off i) ident = Some True"
    and "\<And>j. i0 \<le> j \<Longrightarrow> j < i \<Longrightarrow> strcmp_eq m (id_off j) ident = Some False"
  shows "scan_items m n ident i0 = Inr (Some i)"
  using assms
proof (induction "i - i0" arbitrary: i0)
  case 0
  then have "i0 = i"
    by simp
  with 0 show ?case
    by (simp add: scan_items_step)
next
  case (Suc d)
  then have lt: "i0 < i"
    by simp
  with Suc.prems have "strcmp_eq m (id_off i0) ident = Some False"
    by simp
  moreover from Suc.hyps(2) lt Suc.prems have "scan_items m n ident (i0 + 1) = Inr (Some i)"
    by (intro Suc.hyps(1)) auto
  moreover from lt Suc.prems(2) have "i0 < n"
    by simp
  ultimately show ?case
    by (simp add: scan_items_step)
qed

text \<open>With terminated identifiers the scan is decided by the stored identifiers.\<close>

lemma scan_items_stored_none:
  assumes "\<And>j. j < nitems v \<Longrightarrow> stored_id v j \<noteq> None" and "NUL \<notin> set ident"
    and "\<And>j. j < nitems v \<Longrightarrow> stored_id v j \<noteq> Some ident"
  shows "scan_items (items v) (nitems v) ident 0 = Inr None"
proof (rule scan_items_none)
  fix j assume "j < nitems v"
  with assms(1,3) obtain t where "cstring_at (items v) (id_off j) = Some t" and "t \<noteq> ident"
    by (auto simp: stored_id_def)
  with assms(2) show "strcmp_eq (items v) (id_off j) ident = Some False"
    by (simp add: strcmp_eq_cstring_at)
qed

lemma scan_items_stored_first:
  assumes "\<And>j. j < nitems v \<Longrightarrow> stored_id v j \<noteq> None" and "NUL \<notin> set ident"
    and "i < nitems v" and "stored_id v i = Some ident"
    and "\<And>j. j < i \<Longrightarrow> stored_id v j \<noteq> Some ident"
  shows "scan_items (items v) (nitems v) ident 0 = Inr (Some i)"
proof (rule scan_items_first)
  show "0 \<le> i" by simp
  show "i < nitems v" by fact
  from assms(2,4) show "strcmp_eq (items v) (id_off i) ident = Some True"
    by (simp add: stored_id_def strcmp_eq_cstring_at)
next
  fix j assume j: "j < i"
  with assms(3) have "j < nitems v"
    by simp
  from assms(1) [OF this] assms(5) [OF j]
  obtain t where "cstring_at (items v) (id_off j) = Some t" and "t \<noteq> ident"
    by (auto simp: stored_id_def)
  with assms(2) show "strcmp_eq (items v) (id_off j) ident = Some False"
    by (simp add: strcmp_eq_cstring_at)
qed

section \<open>Facts about \<^verbatim>\<open>add_key\<close> and \<^verbatim>\<open>delete_key\<close>\<close>

lemma take_drop_store_bytes_same:
  "dst + length src \<le> length m \<Longrightarrow> take (length src) (drop dst (store_bytes m dst src)) = src"
  by (simp add: store_bytes_def)

lemma take_drop_store_bytes_other:
  assumes "dst + length src \<le> length m" and "q + n \<le> dst \<or> dst + length src \<le> q"
  shows "take n (drop q (store_bytes m dst src)) = take n (drop q m)"
proof (rule nth_equalityI)
  from assms(1) show "length (take n (drop q (store_bytes m dst src))) = length (take n (drop q m))"
    by (simp add: length_store_bytes)
next
  fix k assume "k < length (take n (drop q (store_bytes m dst src)))"
  with assms(1) have "k < n \<and> k < length m - q"
    by (simp add: length_store_bytes)
  then have k: "k < n" "q + k < length m"
    by linarith+
  with assms have "store_bytes m dst src ! (q + k) = m ! (q + k)"
    by (auto simp: nth_store_bytes)
  with k assms(1) show "take n (drop q (store_bytes m dst src)) ! k = take n (drop q m) ! k"
    by (simp add: length_store_bytes)
qed

lemma add_key_rejected:
  assumes "fst (add_key v id_arg key_arg comment_arg) = Inl e" and "e \<noteq> OutOfRegion"
  shows "snd (add_key v id_arg key_arg comment_arg) = v"
  using assms
  by (auto simp: add_key_def add_key_locked_def add_key_copy_def Let_def
           split: option.splits sum.splits if_splits)

lemma add_key_duplicate:
  assumes trm: "\<And>j. j < nitems v \<Longrightarrow> stored_id v j \<noteq> None" and nul: "NUL \<notin> set ident"
    and present: "i < nitems v" "stored_id v i = Some ident"
    and bounds: "length ident < MAX_ID_LENGTH" "length data < MAX_KEY_LENGTH"
      "\<And>c. comment_arg = Some c \<Longrightarrow> length c < MAX_COMMENT_LENGTH"
  shows "add_key v (Some ident) (Some data) comment_arg = (Inl NotUnique, v)"
proof -
  define i0 where "i0 = (LEAST k. k < nitems v \<and> stored_id v k = Some ident)"
  from present have "i0 < nitems v \<and> stored_id v i0 = Some ident"
    unfolding i0_def by (intro LeastI [where P = "\<lambda>k. k < nitems v \<and> stored_id v k = Some ident"]) simp
  moreover have "stored_id v j \<noteq> Some ident" if "j < i0" for j
  proof
    assume "stored_id v j = Some ident"
    moreover from that \<open>i0 < nitems v \<and> _\<close> have "j < nitems v"
      by simp
    ultimately have "i0 \<le> j"
      unfolding i0_def by (intro Least_le) simp
    with that show False
      by simp
  qed
  ultimately have "scan_items (items v) (nitems v) ident 0 = Inr (Some i0)"
    using trm nul by (intro scan_items_stored_first) auto
  moreover from bounds(3) have "\<not> (case comment_arg of None \<Rightarrow> False | Some c \<Rightarrow> MAX_COMMENT_LENGTH \<le> length c)"
    by (cases comment_arg) (auto simp: not_le)
  ultimately show ?thesis
    using bounds(1,2) by (simp add: add_key_def add_key_locked_def Let_def not_le [symmetric])
qed

lemma delete_key_found:
  assumes "scan_items (items v) (nitems v) ident 0 = Inr (Some i)" and "i < nitems v"
    and "id_off (nitems v) \<le> length (items v)"
  shows "delete_key v (Some ident)
           = (Inr (), v\<lparr>nitems := nitems v - 1,
                       items := store_bytes (items v) (id_off i) (item_bytes v (nitems v - 1))\<rparr>)"
proof -
  from assms(2) have n: "id_off (nitems v - 1) + sizeof_VaultItemData = id_off (nitems v)"
    by (cases "nitems v") (simp_all add: id_off_def)
  from assms(2) have "id_off i + sizeof_VaultItemData \<le> id_off (nitems v)"
    by (simp add: id_off_def) (metis Suc_leI mult_Suc mult_le_mono1 add.commute)
  with assms(3) have i: "id_off i + sizeof_VaultItemData \<le> length (items v)"
    by simp
  from n assms(3) have r: "read_bytes (items v) (id_off (nitems v - 1)) sizeof_VaultItemData
                            = Some (item_bytes v (nitems v - 1))"
    by (simp add: read_bytes_def item_bytes_def)
  from n assms(3) have len: "length (item_bytes v (nitems v - 1)) = sizeof_VaultItemData"
    by (simp add: item_bytes_def)
  with i have "memcpy (items v) (id_off i) (item_bytes v (nitems v - 1))
                 = Some (store_bytes (items v) (id_off i) (item_bytes v (nitems v - 1)))"
    by (simp add: memcpy_def)
  with r assms(1) show ?thesis
    by (simp add: delete_key_def Let_def)
qed

lemma delete_key_not_found:
  "scan_items (items v) (nitems v) ident 0 = Inr None \<Longrightarrow> delete_key v (Some ident) = (Inr (), v)"
  by (simp add: delete_key_def)


section \<open>Facts about the snapshot and the listing\<close>

lemma key_off_mono: "i \<le> j \<Longrightarrow> key_off i \<le> key_off j"
  by (simp add: key_off_def)

lemma key_field_in_slot: "key_off i + MAX_KEY_LENGTH = id_off (i + 1)"
  by (simp add: layout_defs)

lemma id_off_mono: "i \<le> j \<Longrightarrow> id_off i \<le> id_off j"
  by (simp add: id_off_def)

lemma strip_keys_loop_result:
  assumes "id_off n \<le> length m"
  shows "\<exists>m1. strip_keys_loop m n i = Some m1 \<and> length m1 = length m
           \<and> (\<forall>k<length m. m1 ! k =
                 (if \<exists>j. i \<le> j \<and> j < n \<and> key_off j \<le> k \<and> k < key_off j + MAX_KEY_LENGTH
                  then NUL else m ! k))"
  using assms
proof (induction "n - i" arbitrary: i m)
  case 0
  then show ?case
    by (auto simp: strip_keys_loop_done)
next
  case (Suc d)
  then have lt: "i < n"
    by simp
  then have "id_off (i + 1) \<le> id_off n"
    by (intro id_off_mono) simp
  with Suc.prems have fit: "key_off i + length (replicate MAX_KEY_LENGTH NUL) \<le> length m"
    by (simp add: key_field_in_slot)
  define m0 where "m0 = store_bytes m (key_off i) (replicate MAX_KEY_LENGTH NUL)"
  from fit have set0: "memset m (key_off i) NUL MAX_KEY_LENGTH = Some m0"
    by (simp add: memset_def memcpy_def m0_def)
  from fit have len0: "length m0 = length m"
    by (simp add: m0_def length_store_bytes)
  from Suc.hyps(2) have "d = n - (i + 1)"
    by simp
  moreover from Suc.prems len0 have "id_off n \<le> length m0"
    by simp
  ultimately have "\<exists>m1. strip_keys_loop m0 n (i + 1) = Some m1 \<and> length m1 = length m0
           \<and> (\<forall>k<length m0. m1 ! k =
                 (if \<exists>j. i + 1 \<le> j \<and> j < n \<and> key_off j \<le> k \<and> k < key_off j + MAX_KEY_LENGTH
                  then NUL else m0 ! k))"
    by (rule Suc.hyps(1))
  then obtain m1 where m1: "strip_keys_loop m0 n (i + 1) = Some m1" "length m1 = length m0"
    and nth1: "\<And>k. k < length m0 \<Longrightarrow> m1 ! k =
                 (if \<exists>j. i + 1 \<le> j \<and> j < n \<and> key_off j \<le> k \<and> k < key_off j + MAX_KEY_LENGTH
                  then NUL else m0 ! k)"
    by blast
  have nth0: "m0 ! k = (if key_off i \<le> k \<and> k < key_off i + MAX_KEY_LENGTH then NUL else m ! k)"
    if "k < length m" for k
    using fit that by (auto simp: m0_def nth_store_bytes)
  have step: "(\<exists>j. i \<le> j \<and> j < n \<and> key_off j \<le> k \<and> k < key_off j + MAX_KEY_LENGTH)
         \<longleftrightarrow> (key_off i \<le> k \<and> k < key_off i + MAX_KEY_LENGTH)
             \<or> (\<exists>j. i + 1 \<le> j \<and> j < n \<and> key_off j \<le> k \<and> k < key_off j + MAX_KEY_LENGTH)"
    (is "?C \<longleftrightarrow> ?A \<or> ?B") for k
  proof
    assume ?C
    then obtain j where j: "i \<le> j" "j < n" "key_off j \<le> k" "k < key_off j + MAX_KEY_LENGTH"
      by blast
    show "?A \<or> ?B"
    proof (cases "j = i")
      case True
      with j(3,4) have ?A
        by blast
      then show ?thesis ..
    next
      case False
      with j(1) have "i + 1 \<le> j"
        by linarith
      with j(2,3,4) have ?B
        by blast
      then show ?thesis ..
    qed
  next
    assume "?A \<or> ?B"
    then show ?C
    proof
      assume ?A
      with lt show ?C
        by blast
    next
      assume ?B
      then obtain j where j: "i + 1 \<le> j" "j < n" "key_off j \<le> k" "k < key_off j + MAX_KEY_LENGTH"
        by blast
      from j(1) have "i \<le> j"
        by linarith
      with j(2,3,4) show ?C
        by blast
    qed
  qed
  have "m1 ! k = (if \<exists>j. i \<le> j \<and> j < n \<and> key_off j \<le> k \<and> k < key_off j + MAX_KEY_LENGTH
                  then NUL else m ! k)" if k: "k < length m" for k
  proof -
    define A where "A \<longleftrightarrow> key_off i \<le> k \<and> k < key_off i + MAX_KEY_LENGTH"
    define B where "B \<longleftrightarrow> (\<exists>j. i + 1 \<le> j \<and> j < n \<and> key_off j \<le> k \<and> k < key_off j + MAX_KEY_LENGTH)"
    define C where "C \<longleftrightarrow> (\<exists>j. i \<le> j \<and> j < n \<and> key_off j \<le> k \<and> k < key_off j + MAX_KEY_LENGTH)"
    from k len0 have "k < length m0"
      by simp
    then have a: "m1 ! k = (if B then NUL else m0 ! k)"
      unfolding B_def by (rule nth1)
    have b: "m0 ! k = (if A then NUL else m ! k)"
      unfolding A_def using k by (rule nth0)
    have c: "C \<longleftrightarrow> A \<or> B"
      unfolding A_def B_def C_def by (rule step)
    from a b c have "m1 ! k = (if C then NUL else m ! k)"
      by auto
    then show ?thesis
      unfolding C_def .
  qed
  with lt set0 m1 len0 show ?case
    by (simp add: strip_keys_loop_step)
qed

lemma cstring_at_bounded:
  assumes "p + n < length m" and "m ! (p + n) = NUL"
  shows "cstring_at m p = Some (cstr (take n (drop p m)))"
proof -
  from assms(1) have "drop (p + n) m = m ! (p + n) # drop (p + n + 1) m"
    by (rule drop_nth_Cons)
  with assms(2) have tail: "drop n (drop p m) = NUL # drop (p + n + 1) m"
    by (simp add: add.commute)
  have split: "drop p m = take n (drop p m) @ NUL # drop (p + n + 1) m"
    using append_take_drop_id [of n "drop p m"] tail by simp
  then have "NUL \<in> set (drop p m)"
    by (rule ssubst) simp
  moreover have "cstr (take n (drop p m) @ NUL # drop (p + n + 1) m) = cstr (take n (drop p m))"
  proof (cases "NUL \<in> set (take n (drop p m))")
    case True
    then show ?thesis
      unfolding cstr_def by (intro takeWhile_append1 [where x = NUL]) simp_all
  next
    case False
    then have all: "\<forall>x\<in>set (take n (drop p m)). x \<noteq> NUL"
      by auto
    then have "takeWhile (\<lambda>c. c \<noteq> NUL) (take n (drop p m) @ NUL # drop (p + n + 1) m)
             = take n (drop p m) @ takeWhile (\<lambda>c. c \<noteq> NUL) (NUL # drop (p + n + 1) m)"
      by (intro takeWhile_append2) auto
    also have "\<dots> = take n (drop p m)"
      by simp
    also from all have "\<dots> = takeWhile (\<lambda>c. c \<noteq> NUL) (take n (drop p m))"
      by (rule takeWhile_eq_all_conv [THEN iffD2, symmetric])
    finally show ?thesis
      by (simp only: cstr_def)
  qed
  ultimately show ?thesis
    using split by (simp add: cstring_at_def)
qed

lemma list_from_map:
  assumes "\<And>j. k \<le> j \<Longrightarrow> j < n \<Longrightarrow> list_row c j = Inr (f j)"
  shows "list_from c n k = Inr (map f [k..<n])"
  using assms
proof (induction "n - k" arbitrary: k)
  case 0
  then show ?case
    by (simp add: list_from_done)
next
  case (Suc d)
  then have lt: "k < n"
    by simp
  with Suc.prems have "list_row c k = Inr (f k)"
    by simp
  moreover from Suc have "list_from c n (k + 1) = Inr (map f [k + 1..<n])"
    by simp
  ultimately show ?case
    using lt by (simp add: list_from_step upt_conv_Cons)
qed

lemma key_off_id_off: "key_off j = id_off j + (MAX_ID_LENGTH + MAX_COMMENT_LENGTH)"
  by (simp add: layout_defs)

lemma comment_off_id_off: "comment_off j = id_off j + MAX_ID_LENGTH"
  by (simp add: layout_defs)

lemma comment_bytes_drop: "comment_bytes v j = drop MAX_ID_LENGTH (id_comment_bytes v j)"
  by (simp add: comment_bytes_def id_comment_bytes_def comment_off_id_off drop_take add.commute)

lemma take_drop_cong:
  assumes "length m1 = length m"
    and "\<And>k. k < len \<Longrightarrow> q + k < length m \<Longrightarrow> m1 ! (q + k) = m ! (q + k)"
  shows "take len (drop q m1) = take len (drop q m)"
proof (rule nth_equalityI)
  from assms(1) show "length (take len (drop q m1)) = length (take len (drop q m))"
    by simp
next
  fix k assume "k < length (take len (drop q m1))"
  with assms(1) have "k < len \<and> k < length m - q"
    by simp
  then have k: "k < len" "q + k < length m"
    by linarith+
  with assms show "take len (drop q m1) ! k = take len (drop q m) ! k"
    by simp
qed

text \<open>A byte before the key field of slot \<open>j\<close> and inside that slot lies in no key field.\<close>

lemma outside_key_fields:
  assumes "id_off j \<le> k" and "k < key_off j"
  shows "\<not> (\<exists>i. key_off i \<le> k \<and> k < key_off i + MAX_KEY_LENGTH)"
proof
  assume "\<exists>i. key_off i \<le> k \<and> k < key_off i + MAX_KEY_LENGTH"
  then obtain i where i: "key_off i \<le> k" "k < key_off i + MAX_KEY_LENGTH"
    by blast
  show False
  proof (cases "i < j")
    case True
    then have "id_off (i + 1) \<le> id_off j"
      by (intro id_off_mono) simp
    with i(2) assms(1) show False
      by (simp add: key_field_in_slot)
  next
    case False
    then have "key_off j \<le> key_off i"
      by (intro key_off_mono) simp
    with i(1) assms(2) show False
      by simp
  qed
qed

lemma vault_copy_result:
  assumes "id_off (nitems v) \<le> length (items v)"
  shows "\<exists>c. vault_copy b v = Inr c \<and> nitems c = nitems v \<and> maxitems c = maxitems v
           \<and> lock c = lock v \<and> length (items c) = length (items v)
           \<and> (\<forall>j<nitems v. key_bytes c j = replicate MAX_KEY_LENGTH NUL)
           \<and> (\<forall>j<nitems v. id_comment_bytes c j = id_comment_bytes v j)
           \<and> drop (id_off (nitems v)) (items c) = drop (id_off (nitems v)) (items v)"
proof -
  from strip_keys_loop_result [OF assms, of 0]
  obtain m1 where m1: "strip_keys_loop (items v) (nitems v) 0 = Some m1"
    and len: "length m1 = length (items v)"
    and nth1: "\<And>k. k < length (items v) \<Longrightarrow> m1 ! k =
                 (if \<exists>j. 0 \<le> j \<and> j < nitems v \<and> key_off j \<le> k \<and> k < key_off j + MAX_KEY_LENGTH
                  then NUL else items v ! k)"
    by blast
  define c where "c = v\<lparr>items := m1\<rparr>"
  from m1 have copy: "vault_copy b v = Inr c"
    by (simp add: vault_copy_def c_def)
  have keys: "key_bytes c j = replicate MAX_KEY_LENGTH NUL" if j: "j < nitems v" for j
  proof (rule nth_equalityI)
    from j have "id_off (j + 1) \<le> id_off (nitems v)"
      by (intro id_off_mono) simp
    with assms len have fit: "key_off j + MAX_KEY_LENGTH \<le> length m1"
      by (simp add: key_field_in_slot)
    then show l: "length (key_bytes c j) = length (replicate MAX_KEY_LENGTH NUL)"
      by (simp add: key_bytes_def c_def)
    fix k assume "k < length (key_bytes c j)"
    with l have k: "k < MAX_KEY_LENGTH"
      by simp
    with fit len have kk: "key_off j + k < length (items v)"
      by simp
    from j k have "\<exists>i. 0 \<le> i \<and> i < nitems v \<and> key_off i \<le> key_off j + k
                     \<and> key_off j + k < key_off i + MAX_KEY_LENGTH"
      by (intro exI [of _ j]) simp
    with nth1 [OF kk] have "m1 ! (key_off j + k) = NUL"
      by auto
    with k kk len show "key_bytes c j ! k = replicate MAX_KEY_LENGTH NUL ! k"
      by (simp add: key_bytes_def c_def)
  qed
  have idc: "id_comment_bytes c j = id_comment_bytes v j" for j
    unfolding id_comment_bytes_def c_def
  proof (simp, rule take_drop_cong [OF len])
    fix k assume k: "k < MAX_ID_LENGTH + MAX_COMMENT_LENGTH" "id_off j + k < length (items v)"
    then have "\<not> (\<exists>i. key_off i \<le> id_off j + k \<and> id_off j + k < key_off i + MAX_KEY_LENGTH)"
      by (intro outside_key_fields [of j]) (simp_all add: key_off_id_off)
    then have "\<not> (\<exists>i. 0 \<le> i \<and> i < nitems v \<and> key_off i \<le> id_off j + k
                       \<and> id_off j + k < key_off i + MAX_KEY_LENGTH)"
      by blast
    with nth1 [OF k(2)] show "m1 ! (id_off j + k) = items v ! (id_off j + k)"
      by auto
  qed
  have rest: "drop (id_off (nitems v)) (items c) = drop (id_off (nitems v)) (items v)"
  proof (rule nth_equalityI)
    from len show "length (drop (id_off (nitems v)) (items c)) = length (drop (id_off (nitems v)) (items v))"
      by (simp add: c_def)
    fix k assume "k < length (drop (id_off (nitems v)) (items c))"
    with len have k: "id_off (nitems v) + k < length (items v)"
      by (simp add: c_def)
    have "\<not> (\<exists>i. 0 \<le> i \<and> i < nitems v \<and> key_off i \<le> id_off (nitems v) + k
                       \<and> id_off (nitems v) + k < key_off i + MAX_KEY_LENGTH)"
    proof
      assume "\<exists>i. 0 \<le> i \<and> i < nitems v \<and> key_off i \<le> id_off (nitems v) + k
                       \<and> id_off (nitems v) + k < key_off i + MAX_KEY_LENGTH"
      then obtain i where i: "i < nitems v" "id_off (nitems v) + k < key_off i + MAX_KEY_LENGTH"
        by blast
      from i(1) have "id_off (i + 1) \<le> id_off (nitems v)"
        by (intro id_off_mono) simp
      with i(2) show False
        by (simp add: key_field_in_slot)
    qed
    with nth1 [OF k] have "m1 ! (id_off (nitems v) + k) = items v ! (id_off (nitems v) + k)"
      by auto
    with k len assms show "drop (id_off (nitems v)) (items c) ! k = drop (id_off (nitems v)) (items v) ! k"
      by (simp add: c_def)
  qed
  from copy len keys idc rest show ?thesis
    by (intro exI [of _ c]) (simp add: c_def)
qed


section \<open>The invariant holds in every reachable vault\<close>

lemma id_off_Suc: "id_off (i + 1) = id_off i + sizeof_VaultItemData"
  by (simp add: id_off_def)

lemma id_off_less:
  assumes "i < j"
  shows "id_off i + sizeof_VaultItemData \<le> id_off j"
proof -
  from assms have "i + 1 \<le> j"
    by simp
  then have "id_off (i + 1) \<le> id_off j"
    by (rule id_off_mono)
  then show ?thesis
    by (simp only: id_off_Suc)
qed

lemma scan_items_Some_lt:
  "scan_items m n ident i0 = Inr (Some i) \<Longrightarrow> i0 \<le> i \<and> i < n"
proof (induction "n - i0" arbitrary: i0)
  case 0
  then show ?case
    by (simp add: scan_items_done)
next
  case (Suc d)
  then have lt: "i0 < n"
    by simp
  show ?case
  proof (cases "strcmp_eq m (id_off i0) ident")
    case None
    with lt Suc.prems show ?thesis
      by (simp add: scan_items_step)
  next
    case (Some b)
    show ?thesis
    proof (cases b)
      case True
      with Some lt Suc.prems show ?thesis
        by (simp add: scan_items_step)
    next
      case False
      with Some lt Suc.prems have "scan_items m n ident (i0 + 1) = Inr (Some i)"
        by (simp add: scan_items_step)
      moreover from Suc.hyps(2) have "d = n - (i0 + 1)"
        by simp
      ultimately have "i0 + 1 \<le> i \<and> i < n"
        by (intro Suc.hyps(1))
      then show ?thesis
        by simp
    qed
  qed
qed

text \<open>
  A write that stays between the start of slot \<open>n\<close> and the last identifier byte
  of slot \<open>n + 1\<close>, and misses the last identifier byte of slot \<open>n\<close>, changes the
  last identifier byte of no slot.
\<close>

lemma store_bytes_keeps_last_id_byte:
  assumes fit: "dst + length src \<le> length m"
    and lo: "id_off n \<le> dst"
    and hi: "dst + length src \<le> id_off (n + 1) + (MAX_ID_LENGTH - 1)"
    and miss: "dst + length src \<le> id_off n + (MAX_ID_LENGTH - 1)
               \<or> id_off n + (MAX_ID_LENGTH - 1) < dst"
    and k: "id_off i + (MAX_ID_LENGTH - 1) < length m"
  shows "store_bytes m dst src ! (id_off i + (MAX_ID_LENGTH - 1)) = m ! (id_off i + (MAX_ID_LENGTH - 1))"
proof -
  have "\<not> (dst \<le> id_off i + (MAX_ID_LENGTH - 1) \<and> id_off i + (MAX_ID_LENGTH - 1) < dst + length src)"
  proof (cases i n rule: linorder_cases)
    case less
    from id_off_less [OF less] lo show ?thesis
      by (simp add: layout_defs)
  next
    case equal
    with miss show ?thesis
      by auto
  next
    case greater
    then have "id_off (n + 1) \<le> id_off i"
      by (intro id_off_mono) simp
    with hi show ?thesis
      by simp
  qed
  with nth_store_bytes [OF fit k] show ?thesis
    by (simp only: if_False)
qed

lemma last_id_bytes_in_segment:
  assumes "id_off M \<le> length m" and "i < M"
  shows "id_off i + (MAX_ID_LENGTH - 1) < length m"
  using id_off_less [OF assms(2)] assms(1) by (simp add: layout_defs)

lemma last_id_bytes_memcpy:
  assumes "last_id_bytes M m" and "memcpy m dst src = Some m1"
    and "id_off n \<le> dst"
    and "dst + length src \<le> id_off (n + 1) + (MAX_ID_LENGTH - 1)"
    and "dst + length src \<le> id_off n + (MAX_ID_LENGTH - 1)
               \<or> id_off n + (MAX_ID_LENGTH - 1) < dst"
  shows "last_id_bytes M m1"
proof -
  from assms(2) have fit: "dst + length src \<le> length m" and m1: "m1 = store_bytes m dst src"
    by (simp_all add: memcpy_Some)
  from assms(1) have seg: "id_off M \<le> length m"
    and nul: "\<And>i. i < M \<Longrightarrow> m ! (id_off i + (MAX_ID_LENGTH - 1)) = NUL"
    by (simp_all add: last_id_bytes_def)
  have "m1 ! (id_off i + (MAX_ID_LENGTH - 1)) = NUL" if "i < M" for i
    unfolding m1
    using store_bytes_keeps_last_id_byte [OF fit assms(3,4,5) last_id_bytes_in_segment [OF seg that]]
      nul [OF that]
    by simp
  with seg fit show ?thesis
    by (simp add: last_id_bytes_def m1 length_store_bytes)
qed

lemma vault_inv_last_id_bytes:
  "vault_inv v \<longleftrightarrow> nitems v \<le> maxitems v \<and> last_id_bytes (maxitems v) (items v)"
  by (auto simp: vault_inv_def last_id_bytes_def)

lemma vault_inv_add_key_copy:
  assumes inv: "vault_inv v" and room: "nitems v < maxitems v"
    and id: "length ident < MAX_ID_LENGTH"
    and key: "length key \<le> MAX_KEY_LENGTH + 3"
    and com: "\<And>c. comment = Some c \<Longrightarrow> length c < MAX_COMMENT_LENGTH"
  shows "vault_inv (snd (add_key_copy v ident key comment))"
proof -
  let ?n = "nitems v" and ?M = "maxitems v"
  from inv have l0: "last_id_bytes ?M (items v)"
    by (simp add: vault_inv_last_id_bytes)
  have l1: "last_id_bytes ?M m1" if "memcpy (items v) (id_off ?n) ident = Some m1" for m1
    using l0 that
  proof (rule last_id_bytes_memcpy [where n = ?n])
    show "id_off ?n \<le> id_off ?n" ..
    from id show "id_off ?n + length ident \<le> id_off (?n + 1) + (MAX_ID_LENGTH - 1)"
      by (simp add: layout_defs)
    from id show "id_off ?n + length ident \<le> id_off ?n + (MAX_ID_LENGTH - 1)
                    \<or> id_off ?n + (MAX_ID_LENGTH - 1) < id_off ?n"
      by (simp add: layout_defs)
  qed
  have l2: "last_id_bytes ?M m2" if "last_id_bytes ?M m1" "memcpy m1 (key_off ?n) key = Some m2" for m1 m2
    using that
  proof (rule last_id_bytes_memcpy [where n = ?n])
    show "id_off ?n \<le> key_off ?n"
      by (simp add: layout_defs)
    from key show "key_off ?n + length key \<le> id_off (?n + 1) + (MAX_ID_LENGTH - 1)"
      by (simp add: layout_defs)
    show "key_off ?n + length key \<le> id_off ?n + (MAX_ID_LENGTH - 1)
            \<or> id_off ?n + (MAX_ID_LENGTH - 1) < key_off ?n"
      by (simp add: layout_defs)
  qed
  have l3: "last_id_bytes ?M m3"
    if "last_id_bytes ?M m2" "memcpy m2 (comment_off ?n) c = Some m3" "comment = Some c" for m2 m3 c
    using that(1,2)
  proof (rule last_id_bytes_memcpy [where n = ?n])
    show "id_off ?n \<le> comment_off ?n"
      by (simp add: layout_defs)
    from com [OF that(3)] show "comment_off ?n + length c \<le> id_off (?n + 1) + (MAX_ID_LENGTH - 1)"
      by (simp add: layout_defs)
    show "comment_off ?n + length c \<le> id_off ?n + (MAX_ID_LENGTH - 1)
            \<or> id_off ?n + (MAX_ID_LENGTH - 1) < comment_off ?n"
      by (simp add: layout_defs)
  qed
  from inv have n: "?n \<le> ?M"
    by (simp add: vault_inv_def)
  show ?thesis
  proof (cases "memcpy (items v) (id_off ?n) ident")
    case None
    with inv show ?thesis
      by (simp add: add_key_copy_def)
  next
    case m1: (Some m1)
    note i1 = l1 [OF m1]
    show ?thesis
    proof (cases "memcpy m1 (key_off ?n) key")
      case None
      with m1 n i1 show ?thesis
        by (simp add: add_key_copy_def vault_inv_last_id_bytes)
    next
      case m2: (Some m2)
      note i2 = l2 [OF i1 m2]
      show ?thesis
      proof (cases comment)
        case None
        with m1 m2 room i2 show ?thesis
          by (simp add: add_key_copy_def vault_inv_last_id_bytes)
      next
        case c: (Some c)
        show ?thesis
        proof (cases "memcpy m2 (comment_off ?n) c")
          case None
          with m1 m2 c n i2 show ?thesis
            by (simp add: add_key_copy_def vault_inv_last_id_bytes)
        next
          case m3: (Some m3)
          note i3 = l3 [OF i2 m3 c]
          with m1 m2 c m3 room show ?thesis
            by (simp add: add_key_copy_def vault_inv_last_id_bytes)
        qed
      qed
    qed
  qed
qed

lemma vault_inv_add_key:
  assumes "vault_inv v"
  shows "vault_inv (snd (add_key v id_arg key_arg comment_arg))"
proof (cases "\<exists>ident data. id_arg = Some ident \<and> key_arg = Some data
                \<and> length ident < MAX_ID_LENGTH \<and> length data < MAX_KEY_LENGTH
                \<and> (\<forall>c. comment_arg = Some c \<longrightarrow> length c < MAX_COMMENT_LENGTH)
                \<and> nitems v < maxitems v
                \<and> scan_items (items v) (nitems v) ident 0 = Inr None")
  case True
  then obtain ident data where a: "id_arg = Some ident" "key_arg = Some data"
    "length ident < MAX_ID_LENGTH" "length data < MAX_KEY_LENGTH"
    "\<And>c. comment_arg = Some c \<Longrightarrow> length c < MAX_COMMENT_LENGTH"
    "nitems v < maxitems v" "scan_items (items v) (nitems v) ident 0 = Inr None"
    by blast
  from a(5) have "\<not> (case comment_arg of None \<Rightarrow> False | Some c \<Rightarrow> MAX_COMMENT_LENGTH \<le> length c)"
    by (cases comment_arg) (auto simp: not_le)
  with a have "add_key v id_arg key_arg comment_arg
                 = add_key_copy v ident (bytea_4b data) comment_arg"
    by (simp add: add_key_def add_key_locked_def Let_def not_le [symmetric])
  moreover from a(4) have "length (bytea_4b data) \<le> MAX_KEY_LENGTH + 3"
    by (simp add: length_bytea_4b)
  ultimately show ?thesis
    using vault_inv_add_key_copy [OF assms a(6,3) _ a(5)] by simp
next
  case False
  then have "snd (add_key v id_arg key_arg comment_arg) = v"
    by (auto simp: add_key_def add_key_locked_def Let_def not_le
             split: option.splits sum.splits if_splits)
  with assms show ?thesis
    by simp
qed

lemma vault_inv_delete_key:
  assumes "vault_inv v"
  shows "vault_inv (snd (delete_key v id_arg))"
proof (cases "\<exists>ident i. id_arg = Some ident \<and> scan_items (items v) (nitems v) ident 0 = Inr (Some i)")
  case True
  then obtain ident i where a: "id_arg = Some ident"
    and s: "scan_items (items v) (nitems v) ident 0 = Inr (Some i)"
    by blast
  from scan_items_Some_lt [OF s] have i: "i < nitems v"
    by simp
  from assms have n: "nitems v \<le> maxitems v" and seg: "id_off (maxitems v) \<le> length (items v)"
    and nul: "\<And>j. j < maxitems v \<Longrightarrow> items v ! (id_off j + (MAX_ID_LENGTH - 1)) = NUL"
    by (simp_all add: vault_inv_def)
  from n seg id_off_mono [of "nitems v" "maxitems v"] have pop: "id_off (nitems v) \<le> length (items v)"
    by simp
  from delete_key_found [OF s i pop] a
  have d: "snd (delete_key v id_arg)
             = v\<lparr>nitems := nitems v - 1,
                 items := store_bytes (items v) (id_off i) (item_bytes v (nitems v - 1))\<rparr>"
    by simp
  from i have last: "id_off (nitems v - 1) + sizeof_VaultItemData = id_off (nitems v)"
    by (cases "nitems v") (simp_all add: id_off_def)
  with pop have len: "length (item_bytes v (nitems v - 1)) = sizeof_VaultItemData"
    by (simp add: item_bytes_def)
  from id_off_less [OF i] pop len
  have fit: "id_off i + length (item_bytes v (nitems v - 1)) \<le> length (items v)"
    by simp
  have "store_bytes (items v) (id_off i) (item_bytes v (nitems v - 1)) ! (id_off j + (MAX_ID_LENGTH - 1)) = NUL"
    if j: "j < maxitems v" for j
  proof -
    from last_id_bytes_in_segment [OF seg j] have k: "id_off j + (MAX_ID_LENGTH - 1) < length (items v)" .
    show ?thesis
    proof (cases "j = i")
      case True
      from i n have "nitems v - 1 < maxitems v"
        by simp
      from nul [OF this] last pop
      have "item_bytes v (nitems v - 1) ! (MAX_ID_LENGTH - 1) = NUL"
        by (simp add: item_bytes_def layout_defs)
      with True fit k len show ?thesis
        by (simp add: nth_store_bytes layout_defs)
    next
      case False
      then consider "j < i" | "i < j"
        by linarith
      then have "\<not> (id_off i \<le> id_off j + (MAX_ID_LENGTH - 1)
                    \<and> id_off j + (MAX_ID_LENGTH - 1) < id_off i + length (item_bytes v (nitems v - 1)))"
      proof cases
        case 1
        from id_off_less [OF 1] show ?thesis
          by (simp add: layout_defs)
      next
        case 2
        from id_off_less [OF 2] len show ?thesis
          by simp
      qed
      with nth_store_bytes [OF fit k] nul [OF j] show ?thesis
        by (simp only: if_False)
    qed
  qed
  with n seg fit show ?thesis
    by (simp add: d vault_inv_def length_store_bytes)
next
  case False
  then have "snd (delete_key v id_arg) = v"
    by (auto simp: delete_key_def split: option.splits sum.splits)
  with assms show ?thesis
    by simp
qed

lemma vault_inv_delete_keys: "vault_inv v \<Longrightarrow> vault_inv (delete_keys v)"
proof -
  assume inv: "vault_inv v"
  then have seg: "id_off (maxitems v) \<le> length (items v)"
    by (simp add: vault_inv_def)
  have "replicate (length (items v)) NUL ! (id_off i + (MAX_ID_LENGTH - 1)) = NUL" if "i < maxitems v" for i
    using last_id_bytes_in_segment [OF seg that] by simp
  with seg show ?thesis
    by (simp add: vault_inv_def delete_keys_def)
qed

lemma vault_inv_startup:
  assumes "guc_max_size_ok sz"
  shows "vault_inv (pgvault_shmem_startup sz l None)"
proof -
  let ?M = "(sz - offsetof_items) div sizeof_VaultItemData"
  have seg: "id_off ?M \<le> sz - offsetof_items"
    by (simp add: id_off_def)
  have "replicate (sz - offsetof_items) NUL ! (id_off i + (MAX_ID_LENGTH - 1)) = NUL" if "i < ?M" for i
    using last_id_bytes_in_segment [of ?M "replicate (sz - offsetof_items) NUL" i] seg that by simp
  with seg show ?thesis
    by (simp add: vault_inv_def pgvault_shmem_startup_def)
qed

lemma vault_inv_populated:
  assumes "vault_inv v"
  shows "id_off (nitems v) \<le> length (items v)" and "\<forall>j<nitems v. stored_id v j \<noteq> None"
proof -
  from assms have n: "nitems v \<le> maxitems v" and seg: "id_off (maxitems v) \<le> length (items v)"
    and nul: "\<And>j. j < maxitems v \<Longrightarrow> items v ! (id_off j + (MAX_ID_LENGTH - 1)) = NUL"
    by (simp_all add: vault_inv_def)
  from n seg id_off_mono [of "nitems v" "maxitems v"] show "id_off (nitems v) \<le> length (items v)"
    by simp
  show "\<forall>j<nitems v. stored_id v j \<noteq> None"
  proof (intro allI impI)
    fix j assume "j < nitems v"
    with n have j: "j < maxitems v"
      by simp
    from cstring_at_bounded [OF last_id_bytes_in_segment [OF seg j] nul [OF j]]
    show "stored_id v j \<noteq> None"
      by (simp add: stored_id_def)
  qed
qed

lemma reachable_vault_inv: "reachable v \<Longrightarrow> vault_inv v"
  by (induction rule: reachable.induct)
    (simp_all add: vault_inv_startup vault_inv_add_key vault_inv_delete_key vault_inv_delete_keys)

text \<open>
  So in every reachable vault the populated slots lie inside the segment and
  hold terminated identifiers, which is what the properties below assume.
\<close>

lemma reachable_populated:
  assumes "reachable v"
  shows "id_off (nitems v) \<le> length (items v)" and "\<forall>j<nitems v. stored_id v j \<noteq> None"
  using vault_inv_populated [OF reachable_vault_inv [OF assms]] by simp_all

section \<open>Running the operations on the fresh vault\<close>

lemma fresh_vault_eq:
  "fresh_vault = \<lparr>lock = 0, maxitems = 780, nitems = 0, items = replicate 1048564 NUL\<rparr>"
  by (simp add: fresh_vault_def pgvault_shmem_startup_def layout_defs)

lemmas op_simps =
  add_key_def add_key_locked_def add_key_copy_def delete_key_def lookup_key_def
  scan_items_step scan_items_done memcpy_def read_bytes_def layout_defs Let_def

lemmas mem_simps = length_store_bytes_eval length_bytea_4b nth_store_bytes

lemma two_item_vault_facts:
  "nitems two_item_vault = 2"
  "maxitems two_item_vault = 780"
  "length (items two_item_vault) = 1048564"
  "strcmp_eq (items two_item_vault) (id_off 0) ''a'' = Some True"
  "strcmp_eq (items two_item_vault) (id_off 1) ''b'' = Some True"
  "strcmp_eq (items two_item_vault) (comment_off 0) ''first'' = Some True"
  "strcmp_eq (items two_item_vault) (comment_off 1) [] = Some True"
proof -
  define m1 where "m1 = store_bytes (store_bytes (store_bytes (replicate 1048564 NUL) 0 ''a'') 319
                          (bytea_4b ''secret'')) 64 ''first''"
  define m2 where "m2 = store_bytes (store_bytes m1 1343 ''b'') 1662 (bytea_4b ''key'')"
  have l1: "length m1 = 1048564"
    by (simp add: m1_def mem_simps)
  have l2: "length m2 = 1048564"
    by (simp add: m2_def l1 mem_simps)
  have a1: "m1 ! 0 = CHR ''a''" "m1 ! 1 = NUL" "m1 ! 64 = CHR ''f''" "m1 ! 65 = CHR ''i''"
    "m1 ! 66 = CHR ''r''" "m1 ! 67 = CHR ''s''" "m1 ! 68 = CHR ''t''" "m1 ! 69 = NUL"
    "m1 ! 1344 = NUL" "m1 ! 1407 = NUL"
    by (simp_all add: m1_def mem_simps del: One_nat_def)
  have a2: "m2 ! 0 = CHR ''a''" "m2 ! 1 = NUL" "m2 ! 64 = CHR ''f''" "m2 ! 65 = CHR ''i''"
    "m2 ! 66 = CHR ''r''" "m2 ! 67 = CHR ''s''" "m2 ! 68 = CHR ''t''" "m2 ! 69 = NUL"
    "m2 ! 1343 = CHR ''b''" "m2 ! 1344 = NUL" "m2 ! 1407 = NUL"
    by (simp_all add: m2_def l1 a1 mem_simps del: One_nat_def)
  have e1: "add_key fresh_vault (Some ''a'') (Some ''secret'') (Some ''first'')
              = (Inr (), \<lparr>lock = 0, maxitems = 780, nitems = 1, items = m1\<rparr>)"
    by (simp add: fresh_vault_eq op_simps length_store_bytes_eval length_bytea_4b m1_def)
  have e2: "add_key \<lparr>lock = 0, maxitems = 780, nitems = 1, items = m1\<rparr> (Some ''b'') (Some ''key'') None
              = (Inr (), \<lparr>lock = 0, maxitems = 780, nitems = 2, items = m2\<rparr>)"
    by (simp add: op_simps l1 a1 length_store_bytes_eval length_bytea_4b m2_def del: One_nat_def)
  have eq: "two_item_vault = \<lparr>lock = 0, maxitems = 780, nitems = 2, items = m2\<rparr>"
    unfolding two_item_vault_def e1 snd_conv e2 ..
  show "nitems two_item_vault = 2" "maxitems two_item_vault = 780"
    by (simp_all add: eq)
  show "length (items two_item_vault) = 1048564"
    by (simp add: eq l2)
  show "strcmp_eq (items two_item_vault) (id_off 0) ''a'' = Some True"
    "strcmp_eq (items two_item_vault) (id_off 1) ''b'' = Some True"
    "strcmp_eq (items two_item_vault) (comment_off 0) ''first'' = Some True"
    "strcmp_eq (items two_item_vault) (comment_off 1) [] = Some True"
    by (simp_all add: eq l2 a2 layout_defs del: One_nat_def)
qed

lemma two_item_vault_stored:
  "stored_id two_item_vault 0 = Some ''a''"
  "stored_id two_item_vault 1 = Some ''b''"
  "cstring_at (items two_item_vault) (comment_off 0) = Some ''first''"
  "cstring_at (items two_item_vault) (comment_off 1) = Some []"
proof -
  show "stored_id two_item_vault 0 = Some ''a''"
    unfolding stored_id_def by (rule cstring_at_strcmp_eq [OF two_item_vault_facts(4)]) simp
  show "stored_id two_item_vault 1 = Some ''b''"
    unfolding stored_id_def by (rule cstring_at_strcmp_eq [OF two_item_vault_facts(5)]) simp
  show "cstring_at (items two_item_vault) (comment_off 0) = Some ''first''"
    by (rule cstring_at_strcmp_eq [OF two_item_vault_facts(6)]) simp
  show "cstring_at (items two_item_vault) (comment_off 1) = Some []"
    by (rule cstring_at_strcmp_eq [OF two_item_vault_facts(7)]) simp
qed

lemma cstring_at_decomp:
  assumes "cstring_at m p = Some t"
  shows "\<exists>r. drop p m = t @ NUL # r"
proof -
  from assms have nul: "NUL \<in> set (drop p m)" and t: "t = takeWhile (\<lambda>c. c \<noteq> NUL) (drop p m)"
    by (auto simp: cstring_at_def cstr_def split: if_splits)
  from nul have ne: "dropWhile (\<lambda>c. c \<noteq> NUL) (drop p m) \<noteq> []"
    by (auto simp: dropWhile_eq_Nil_conv)
  then obtain x r where xr: "dropWhile (\<lambda>c. c \<noteq> NUL) (drop p m) = x # r"
    by (cases "dropWhile (\<lambda>c. c \<noteq> NUL) (drop p m)") auto
  from hd_dropWhile [OF ne] xr have "x = NUL"
    by simp
  with xr have "dropWhile (\<lambda>c. c \<noteq> NUL) (drop p m) = NUL # r"
    by simp
  with t have "t @ NUL # r = takeWhile (\<lambda>c. c \<noteq> NUL) (drop p m) @ dropWhile (\<lambda>c. c \<noteq> NUL) (drop p m)"
    by simp
  also have "\<dots> = drop p m"
    by (rule takeWhile_dropWhile_id)
  finally have "drop p m = t @ NUL # r"
    by (rule sym)
  then show ?thesis ..
qed

lemma cstr_append_NUL: "NUL \<notin> set t \<Longrightarrow> cstr (t @ NUL # r) = t"
  by (induction t) (auto simp: cstr_def)

lemma cstring_at_NUL_free: "cstring_at m p = Some t \<Longrightarrow> NUL \<notin> set t"
  by (auto simp: cstring_at_def cstr_def split: if_splits dest: set_takeWhileD)

lemma cstr_take_drop:
  assumes "cstring_at m p = Some t" and "length t < n"
  shows "cstr (take n (drop p m)) = t"
proof -
  from cstring_at_decomp [OF assms(1)] obtain r where r: "drop p m = t @ NUL # r"
    by blast
  from assms(2) obtain k where k: "n - length t = Suc k"
    by (cases "n - length t") auto
  from assms(2) r k have "take n (drop p m) = t @ NUL # take k r"
    by simp
  with cstring_at_NUL_free [OF assms(1)] show ?thesis
    by (simp add: cstr_append_NUL)
qed

lemma store_bytes_self:
  "dst + n \<le> length m \<Longrightarrow> store_bytes m dst (take n (drop dst m)) = m"
  by (simp add: store_bytes_def min_def) (metis append_take_drop_id drop_drop add.commute)

lemmas two_item_vault_stored_Suc = two_item_vault_stored [unfolded One_nat_def]

lemma two_item_vault_terminated: "\<forall>j<nitems two_item_vault. stored_id two_item_vault j \<noteq> None"
proof (intro allI impI)
  fix j assume "j < nitems two_item_vault"
  then have "j = 0 \<or> j = 1"
    by (auto simp: two_item_vault_facts)
  then show "stored_id two_item_vault j \<noteq> None"
    by (auto simp: two_item_vault_stored_Suc)
qed

lemma deleted_vault_facts:
  "nitems deleted_vault = 0"
  "length (items deleted_vault) = 1048564"
  "take 10 (drop (key_off 0) (items deleted_vault)) = bytea_4b ''secret''"
proof -
  define m0 where "m0 = store_bytes (replicate 1048564 NUL) 0 ''a''"
  define m1 where "m1 = store_bytes m0 319 (bytea_4b ''secret'')"
  define m2 where "m2 = store_bytes m1 0 (take 1343 (drop 0 m1))"
  have l0: "length m0 = 1048564"
    by (simp add: m0_def mem_simps)
  have l1: "length m1 = 1048564"
    by (simp add: m1_def l0 mem_simps)
  have a1: "m1 ! 0 = CHR ''a''" "m1 ! 1 = NUL"
    by (simp_all add: m1_def m0_def mem_simps del: One_nat_def)
  have e1: "add_key fresh_vault (Some ''a'') (Some ''secret'') None
              = (Inr (), \<lparr>lock = 0, maxitems = 780, nitems = 1, items = m1\<rparr>)"
    by (simp add: fresh_vault_eq op_simps length_store_bytes_eval length_bytea_4b m1_def m0_def)
  have e2: "delete_key \<lparr>lock = 0, maxitems = 780, nitems = 1, items = m1\<rparr> (Some ''a'')
              = (Inr (), \<lparr>lock = 0, maxitems = 780, nitems = 0, items = m2\<rparr>)"
    by (simp add: op_simps l1 a1 m2_def del: One_nat_def)
  have eq: "deleted_vault = \<lparr>lock = 0, maxitems = 780, nitems = 0, items = m2\<rparr>"
    unfolding deleted_vault_def e1 snd_conv e2 ..
  have same: "m2 = m1"
    unfolding m2_def by (rule store_bytes_self) (simp add: l1)
  show "nitems deleted_vault = 0"
    by (simp add: eq)
  show "length (items deleted_vault) = 1048564"
    by (simp add: eq same l1)
  have "take (length (bytea_4b ''secret'')) (drop 319 m1) = bytea_4b ''secret''"
    unfolding m1_def by (rule take_drop_store_bytes_same) (simp add: l0 length_bytea_4b)
  then show "take 10 (drop (key_off 0) (items deleted_vault)) = bytea_4b ''secret''"
    by (simp add: eq same length_bytea_4b layout_defs)
qed

section \<open>Clearing the vault\<close>

text \<open>
  Claim C8. After \<^verbatim>\<open>delete_keys()\<close> the vault holds no item, every byte of every
  item slot (identifier, comment and key fields alike) is zero, the segment has
  the size it had, \<^verbatim>\<open>maxitems\<close> and the lock are untouched, and \<^verbatim>\<open>lookup_key\<close>
  finds no identifier at all, so none of those stored before.
\<close>

theorem delete_keys_clears_vault:
  "nitems (delete_keys v) = 0
   \<and> set (items (delete_keys v)) \<subseteq> {NUL}
   \<and> length (items (delete_keys v)) = length (items v)
   \<and> maxitems (delete_keys v) = maxitems v
   \<and> lock (delete_keys v) = lock v
   \<and> lookup_key (delete_keys v) (Some ident) = Inr None"
  by (auto simp: delete_keys_def lookup_key_def scan_items_done)

section \<open>Initialising the segment\<close>

text \<open>
  Claim C9. For a segment size \<open>sz\<close> that \<^verbatim>\<open>pg_vault.max_size\<close> can have, the first
  \<^verbatim>\<open>pgvault_shmem_startup\<close> (nothing found) leaves a segment of \<open>sz\<close> bytes whose
  item bytes are all zero, with \<^verbatim>\<open>nitems = 0\<close> and
  \<^verbatim>\<open>maxitems = floor((sz - offsetof(VaultInfoData, items)) / sizeof(VaultItemData))\<close>,
  so that \<^verbatim>\<open>maxitems\<close> items fit in the segment; a later call, which finds the
  segment, returns it as it is.
\<close>

theorem pgvault_shmem_startup_capacity:
  assumes "guc_max_size_ok sz"
  shows "int (maxitems (pgvault_shmem_startup sz l None))
           = (int sz - int offsetof_items) div int sizeof_VaultItemData
         \<and> nitems (pgvault_shmem_startup sz l None) = 0
         \<and> offsetof_items + length (items (pgvault_shmem_startup sz l None)) = sz
         \<and> set (items (pgvault_shmem_startup sz l None)) \<subseteq> {NUL}
         \<and> maxitems (pgvault_shmem_startup sz l None) * sizeof_VaultItemData
             \<le> length (items (pgvault_shmem_startup sz l None))
         \<and> pgvault_shmem_startup sz l (Some v) = v"
proof -
  from assms have big: "offsetof_items \<le> sz"
    by (simp add: guc_max_size_ok_def offsetof_items_def)
  then have "int ((sz - offsetof_items) div sizeof_VaultItemData)
               = (int sz - int offsetof_items) div int sizeof_VaultItemData"
    by (simp add: zdiv_int)
  with big show ?thesis
    by (auto simp: pgvault_shmem_startup_def)
qed

theorem pgvault_shmem_startup_capacity_witness:
  "guc_max_size_ok 1048576
   \<and> maxitems (pgvault_shmem_startup 1048576 0 None) = 780
   \<and> nitems (pgvault_shmem_startup 1048576 0 None) = 0
   \<and> length (items (pgvault_shmem_startup 1048576 0 None)) = 1048564
   \<and> pgvault_shmem_startup 1048576 0
        (Some \<lparr>lock = 3, maxitems = 780, nitems = 1, items = replicate 1048564 CHR ''x''\<rparr>)
       = \<lparr>lock = 3, maxitems = 780, nitems = 1, items = replicate 1048564 CHR ''x''\<rparr>"
proof -
  have ok: "guc_max_size_ok 1048576"
    by (simp add: guc_max_size_ok_def)
  from pgvault_shmem_startup_capacity [OF ok, of 0] show ?thesis
    using ok by (simp add: layout_defs)
qed

section \<open>Deleting a key\<close>

text \<open>
  Claim C6. Let the populated slots lie inside the segment and hold terminated
  identifiers, as they do in every reachable vault (\<open>reachable_populated\<close>), and
  let \<open>ident\<close> be the content of a C string. If slot \<open>i\<close> is the
  first populated slot whose identifier is \<open>ident\<close> (the index at which the
  linear scan stops), then \<^verbatim>\<open>delete_key\<close> raises nothing, decrements
  \<^verbatim>\<open>nitems\<close>, leaves in slot \<open>i\<close> the bytes that the last populated slot
  \<^verbatim>\<open>nitems - 1\<close> held, and changes the bytes of no other slot, nor \<^verbatim>\<open>maxitems\<close>,
  the lock or the size of the segment. If no populated slot holds \<open>ident\<close>,
  \<^verbatim>\<open>delete_key\<close> raises nothing and leaves the whole vault as it is.
\<close>

theorem delete_key_postcondition:
  assumes "id_off (nitems v) \<le> length (items v)"
    and "\<forall>j<nitems v. stored_id v j \<noteq> None"
    and "NUL \<notin> set ident"
  shows "(i < nitems v \<and> stored_id v i = Some ident \<and> (\<forall>j<i. stored_id v j \<noteq> Some ident) \<longrightarrow>
            fst (delete_key v (Some ident)) = Inr ()
            \<and> nitems (snd (delete_key v (Some ident))) = nitems v - 1
            \<and> item_bytes (snd (delete_key v (Some ident))) i = item_bytes v (nitems v - 1)
            \<and> (\<forall>j. j \<noteq> i \<longrightarrow> item_bytes (snd (delete_key v (Some ident))) j = item_bytes v j)
            \<and> length (items (snd (delete_key v (Some ident)))) = length (items v)
            \<and> maxitems (snd (delete_key v (Some ident))) = maxitems v
            \<and> lock (snd (delete_key v (Some ident))) = lock v)
         \<and> ((\<forall>j<nitems v. stored_id v j \<noteq> Some ident) \<longrightarrow>
              delete_key v (Some ident) = (Inr (), v))"
proof (intro conjI impI)
  assume "\<forall>j<nitems v. stored_id v j \<noteq> Some ident"
  with assms(2,3) have "scan_items (items v) (nitems v) ident 0 = Inr None"
    by (intro scan_items_stored_none) auto
  then show "delete_key v (Some ident) = (Inr (), v)"
    by (rule delete_key_not_found)
next
  assume a: "i < nitems v \<and> stored_id v i = Some ident \<and> (\<forall>j<i. stored_id v j \<noteq> Some ident)"
  with assms(2,3) have "scan_items (items v) (nitems v) ident 0 = Inr (Some i)"
    by (intro scan_items_stored_first) auto
  with a assms(1) have d: "delete_key v (Some ident)
           = (Inr (), v\<lparr>nitems := nitems v - 1,
                       items := store_bytes (items v) (id_off i) (item_bytes v (nitems v - 1))\<rparr>)"
    by (intro delete_key_found) auto
  from a have n: "id_off (nitems v - 1) + sizeof_VaultItemData = id_off (nitems v)"
    by (cases "nitems v") (simp_all add: id_off_def)
  with assms(1) have len: "length (item_bytes v (nitems v - 1)) = sizeof_VaultItemData"
    by (simp add: item_bytes_def)
  from a have "id_off i + sizeof_VaultItemData \<le> id_off (nitems v)"
    by (simp add: id_off_def) (metis Suc_leI mult_Suc mult_le_mono1 add.commute)
  with assms(1) len have fit: "id_off i + length (item_bytes v (nitems v - 1)) \<le> length (items v)"
    by simp
  show "fst (delete_key v (Some ident)) = Inr ()"
    by (simp add: d)
  show "nitems (snd (delete_key v (Some ident))) = nitems v - 1"
    by (simp add: d)
  show "maxitems (snd (delete_key v (Some ident))) = maxitems v"
    by (simp add: d)
  show "lock (snd (delete_key v (Some ident))) = lock v"
    by (simp add: d)
  from fit show "length (items (snd (delete_key v (Some ident)))) = length (items v)"
    by (simp add: d length_store_bytes)
  from take_drop_store_bytes_same [OF fit] len
  show "item_bytes (snd (delete_key v (Some ident))) i = item_bytes v (nitems v - 1)"
    by (simp add: d item_bytes_def [of "_\<lparr>nitems := _, items := _\<rparr>"])
  show "\<forall>j. j \<noteq> i \<longrightarrow> item_bytes (snd (delete_key v (Some ident))) j = item_bytes v j"
  proof (intro allI impI)
    fix j :: nat assume "j \<noteq> i"
    then consider "j < i" | "i < j"
      by linarith
    then have "id_off j + sizeof_VaultItemData \<le> id_off i
                 \<or> id_off i + length (item_bytes v (nitems v - 1)) \<le> id_off j"
    proof cases
      case 1
      then have "Suc j \<le> i" by simp
      then have "Suc j * sizeof_VaultItemData \<le> i * sizeof_VaultItemData"
        by (rule mult_le_mono1)
      then show ?thesis
        by (simp add: id_off_def)
    next
      case 2
      then have "Suc i \<le> j" by simp
      then have "Suc i * sizeof_VaultItemData \<le> j * sizeof_VaultItemData"
        by (rule mult_le_mono1)
      with len show ?thesis
        by (simp add: id_off_def)
    qed
    from take_drop_store_bytes_other [OF fit this]
    show "item_bytes (snd (delete_key v (Some ident))) j = item_bytes v j"
      by (simp add: d item_bytes_def [of _ j])
  qed
qed

theorem delete_key_postcondition_witness:
  "id_off (nitems two_item_vault) \<le> length (items two_item_vault)
   \<and> stored_id two_item_vault 0 = Some ''a''
   \<and> stored_id two_item_vault 1 = Some ''b''
   \<and> fst (delete_key two_item_vault (Some ''a'')) = Inr ()
   \<and> nitems (snd (delete_key two_item_vault (Some ''a''))) = 1
   \<and> item_bytes (snd (delete_key two_item_vault (Some ''a''))) 0 = item_bytes two_item_vault 1
   \<and> item_bytes (snd (delete_key two_item_vault (Some ''a''))) 1 = item_bytes two_item_vault 1
   \<and> delete_key two_item_vault (Some ''zz'') = (Inr (), two_item_vault)"
proof -
  have seg: "id_off (nitems two_item_vault) \<le> length (items two_item_vault)"
    by (simp add: two_item_vault_facts layout_defs)
  have a: "NUL \<notin> set ''a''" and zz: "NUL \<notin> set ''zz''"
    by simp_all
  have none: "\<forall>j<nitems two_item_vault. stored_id two_item_vault j \<noteq> Some ''zz''"
  proof (intro allI impI)
    fix j assume "j < nitems two_item_vault"
    then have "j = 0 \<or> j = 1"
      by (auto simp: two_item_vault_facts)
    then show "stored_id two_item_vault j \<noteq> Some ''zz''"
      by (auto simp: two_item_vault_stored_Suc)
  qed
  from delete_key_postcondition [OF seg two_item_vault_terminated a, of 0]
  have found: "fst (delete_key two_item_vault (Some ''a'')) = Inr ()
      \<and> nitems (snd (delete_key two_item_vault (Some ''a''))) = 1
      \<and> item_bytes (snd (delete_key two_item_vault (Some ''a''))) 0 = item_bytes two_item_vault 1
      \<and> item_bytes (snd (delete_key two_item_vault (Some ''a''))) 1 = item_bytes two_item_vault 1"
    by (simp add: two_item_vault_facts two_item_vault_stored)
  from delete_key_postcondition [OF seg two_item_vault_terminated zz, of 0] none
  have missing: "delete_key two_item_vault (Some ''zz'') = (Inr (), two_item_vault)"
    by blast
  from seg found missing show ?thesis
    by (simp add: two_item_vault_stored_Suc)
qed

section \<open>Listing the keys\<close>

text \<open>
  What \<^verbatim>\<open>list_keys\<close> emits. Whenever the populated slots lie inside the segment,
  as they do in every reachable vault, \<^verbatim>\<open>list_keys\<close> raises nothing and emits one
  tuple per populated slot, in slot order. The second column of every tuple is
  SQL NULL; the first column is the C string read from the bytes of the
  identifier and comment fields of the slot, the third the C string read from
  the bytes of its comment field. \<^verbatim>\<open>list_keys\<close> reads no byte of a key field; it
  emits whatever the identifier field holds.
\<close>

lemma list_keys_rows:
  assumes "id_off (nitems v) \<le> length (items v)"
  shows "list_keys v =
           Inr (map (\<lambda>i. (cstr (id_comment_bytes v i), None, cstr (comment_bytes v i)))
                  [0..<nitems v])"
proof -
  from vault_copy_result [OF assms, of True]
  obtain c where copy: "vault_copy True v = Inr c" and len: "length (items c) = length (items v)"
    and keys: "\<And>j. j < nitems v \<Longrightarrow> key_bytes c j = replicate MAX_KEY_LENGTH NUL"
    and idc: "\<And>j. j < nitems v \<Longrightarrow> id_comment_bytes c j = id_comment_bytes v j"
    by blast
  have row: "list_row c j = Inr (cstr (id_comment_bytes v j), None, cstr (comment_bytes v j))"
    if j: "j < nitems v" for j
  proof -
    from j have "id_off (j + 1) \<le> id_off (nitems v)"
      by (intro id_off_mono) simp
    with assms len have fit: "key_off j + MAX_KEY_LENGTH \<le> length (items c)"
      by (simp add: key_field_in_slot)
    then have in_seg: "key_off j < length (items c)"
      by (simp add: MAX_KEY_LENGTH_def)
    from fit have "key_bytes c j ! 0 = items c ! key_off j"
      by (simp add: key_bytes_def MAX_KEY_LENGTH_def)
    with keys [OF j] have z: "items c ! key_off j = NUL"
      by (simp add: MAX_KEY_LENGTH_def)
    from in_seg z have "cstring_at (items c) (id_off j) = Some (cstr (id_comment_bytes c j))"
      unfolding id_comment_bytes_def
      by (intro cstring_at_bounded) (simp_all add: key_off_id_off)
    with idc [OF j] have a: "cstring_at (items c) (id_off j) = Some (cstr (id_comment_bytes v j))"
      by simp
    from in_seg z have "cstring_at (items c) (comment_off j) = Some (cstr (comment_bytes c j))"
      unfolding comment_bytes_def
      by (intro cstring_at_bounded) (simp_all add: layout_defs)
    with idc [OF j] have b: "cstring_at (items c) (comment_off j) = Some (cstr (comment_bytes v j))"
      by (simp add: comment_bytes_drop)
    from a b show ?thesis
      by (simp add: list_row_def)
  qed
  then have "list_from c (nitems v) 0
               = Inr (map (\<lambda>i. (cstr (id_comment_bytes v i), None, cstr (comment_bytes v i)))
                        [0..<nitems v])"
    by (intro list_from_map) simp
  with copy show ?thesis
    by (simp add: list_keys_def)
qed

lemma list_keys_two_item_vault:
  "id_off (nitems two_item_vault) \<le> length (items two_item_vault)
   \<and> list_keys two_item_vault = Inr [(''a'', None, ''first''), (''b'', None, [])]"
proof -
  have seg: "id_off (nitems two_item_vault) \<le> length (items two_item_vault)"
    by (simp add: two_item_vault_facts layout_defs)
  have u: "[0..<2] = [0, 1::nat]"
    by (simp add: upt_rec)
  have ids: "cstr (id_comment_bytes two_item_vault 0) = ''a''"
    "cstr (id_comment_bytes two_item_vault 1) = ''b''"
    unfolding id_comment_bytes_def
    by (rule cstr_take_drop, rule two_item_vault_stored [unfolded stored_id_def],
        simp add: layout_defs)+
  have comments: "cstr (comment_bytes two_item_vault 0) = ''first''"
    "cstr (comment_bytes two_item_vault 1) = []"
    unfolding comment_bytes_def
    by (rule cstr_take_drop, rule two_item_vault_stored, simp add: layout_defs)+
  from list_keys_rows [OF seg] have "list_keys two_item_vault =
      Inr (map (\<lambda>i. (cstr (id_comment_bytes two_item_vault i), None,
                      cstr (comment_bytes two_item_vault i))) [0, 1])"
    by (simp only: two_item_vault_facts u)
  with ids comments seg show ?thesis
    by simp
qed

text \<open>
  Claim C7: for every vault, no item that \<^verbatim>\<open>list_keys\<close> emits holds a byte of the
  key of a stored item. The code does not do this, by the overflow of claim C2.
  On the fresh vault, \<^verbatim>\<open>add_key\<close> of \<^verbatim>\<open>k\<close> with a key of 1022 bytes that ends in
  \<^verbatim>\<open>XY\<close> succeeds and copies the \<^verbatim>\<open>Y\<close> of the key into the second byte of the
  identifier field of slot 1, which was zero; \<^verbatim>\<open>add_key('a', 'q', NULL)\<close> succeeds
  and leaves that byte; slot 1 then holds the identifier \<^verbatim>\<open>aY\<close>, and
  \<^verbatim>\<open>list_keys\<close> emits the tuples \<^verbatim>\<open>('k', NULL, '')\<close> and \<^verbatim>\<open>('aY', NULL, '')\<close>: the
  second one shows a byte of the key of \<^verbatim>\<open>k\<close>.
\<close>

theorem list_keys_emits_key_byte:
  "(let r1 = add_key fresh_vault (Some ''k'') (Some (replicate 1020 CHR ''A'' @ ''XY'')) None;
        r2 = add_key (snd r1) (Some ''a'') (Some ''q'') None
    in fst r1 = Inr () \<and> fst r2 = Inr ()
       \<and> items fresh_vault ! (id_off 1 + 1) = NUL
       \<and> items (snd r1) ! (id_off 1 + 1) = CHR ''Y''
       \<and> items (snd r2) ! (id_off 1 + 1) = CHR ''Y''
       \<and> stored_id (snd r2) 1 = Some ''aY''
       \<and> list_keys (snd r2) = Inr [(''k'', None, []), (''aY'', None, [])])"
proof -
  define key where "key = bytea_4b (replicate 1020 CHR ''A'' @ ''XY'')"
  define m0 where "m0 = store_bytes (replicate 1048564 NUL) 0 ''k''"
  define m1 where "m1 = store_bytes m0 319 key"
  define n1 where "n1 = store_bytes m1 1343 ''a''"
  define m2 where "m2 = store_bytes n1 1662 (bytea_4b ''q'')"
  let ?v2 = "\<lparr>lock = 0, maxitems = 780, nitems = 2, items = m2\<rparr>"
  have lk: "length key = 1026"
    by (simp add: key_def length_bytea_4b)
  have k: "key ! 1024 = CHR ''X''" "key ! 1025 = CHR ''Y''"
    by (simp_all add: key_def bytea_4b_def Let_def nth_append)
  have l0: "length m0 = 1048564"
    by (simp add: m0_def mem_simps)
  have l1: "length m1 = 1048564"
    by (simp add: m1_def l0 lk mem_simps)
  have k1: "length n1 = 1048564"
    by (simp add: n1_def l1 mem_simps)
  have l2: "length m2 = 1048564"
    by (simp add: m2_def k1 mem_simps)
  have a1: "m1 ! 0 = CHR ''k''" "m1 ! 1 = NUL" "m1 ! 64 = NUL"
    "m1 ! 1343 = CHR ''X''" "m1 ! 1344 = CHR ''Y''" "m1 ! 1345 = NUL" "m1 ! 1407 = NUL"
    by (simp_all add: m1_def m0_def lk k mem_simps del: One_nat_def)
  have a2: "m2 ! 0 = CHR ''k''" "m2 ! 1 = NUL" "m2 ! 64 = NUL"
    "m2 ! 1343 = CHR ''a''" "m2 ! 1344 = CHR ''Y''" "m2 ! 1345 = NUL" "m2 ! 1407 = NUL"
    by (simp_all add: m2_def n1_def l1 a1 mem_simps del: One_nat_def)
  have e1: "add_key fresh_vault (Some ''k'') (Some (replicate 1020 CHR ''A'' @ ''XY'')) None
              = (Inr (), \<lparr>lock = 0, maxitems = 780, nitems = 1, items = m1\<rparr>)"
    by (simp add: fresh_vault_eq op_simps length_store_bytes_eval length_bytea_4b
                  m1_def m0_def key_def)
  have e2: "add_key \<lparr>lock = 0, maxitems = 780, nitems = 1, items = m1\<rparr> (Some ''a'') (Some ''q'') None
              = (Inr (), ?v2)"
    by (simp add: op_simps l1 a1 length_store_bytes_eval length_bytea_4b m2_def n1_def
             del: One_nat_def)
  have s: "strcmp_eq m2 (id_off 0) ''k'' = Some True"
    "strcmp_eq m2 (id_off 1) ''aY'' = Some True"
    "strcmp_eq m2 (comment_off 0) [] = Some True"
    "strcmp_eq m2 (comment_off 1) [] = Some True"
    by (simp_all add: l2 a2 layout_defs del: One_nat_def)
  have c: "cstring_at m2 (id_off 0) = Some ''k''"
    "cstring_at m2 (id_off 1) = Some ''aY''"
    "cstring_at m2 (comment_off 0) = Some []"
    "cstring_at m2 (comment_off 1) = Some []"
    by (rule cstring_at_strcmp_eq, rule s, simp)+
  have seg: "id_off (nitems ?v2) \<le> length (items ?v2)"
    by (simp add: l2 layout_defs)
  have u: "[0..<2] = [0, 1::nat]"
    by (simp add: upt_rec)
  have cv: "cstring_at (items ?v2) (id_off 0) = Some ''k''"
    "cstring_at (items ?v2) (id_off 1) = Some ''aY''"
    "cstring_at (items ?v2) (comment_off 0) = Some []"
    "cstring_at (items ?v2) (comment_off 1) = Some []"
    using c by simp_all
  have ids: "cstr (id_comment_bytes ?v2 0) = ''k''" "cstr (id_comment_bytes ?v2 1) = ''aY''"
    unfolding id_comment_bytes_def
    by (rule cstr_take_drop, rule cv, simp add: layout_defs)+
  have comments: "cstr (comment_bytes ?v2 0) = []" "cstr (comment_bytes ?v2 1) = []"
    unfolding comment_bytes_def
    by (rule cstr_take_drop, rule cv, simp add: layout_defs)+
  from list_keys_rows [OF seg] have "list_keys ?v2 =
      Inr (map (\<lambda>i. (cstr (id_comment_bytes ?v2 i), None, cstr (comment_bytes ?v2 i))) [0, 1])"
    by (simp add: u)
  with ids comments have rows: "list_keys ?v2 = Inr [(''k'', None, []), (''aY'', None, [])]"
    by simp
  have sid: "stored_id ?v2 1 = Some ''aY''"
    unfolding stored_id_def by (rule cv)
  have b: "items fresh_vault ! (id_off 1 + 1) = NUL"
    by (simp add: fresh_vault_eq layout_defs)
  have b1: "m1 ! (id_off 1 + 1) = CHR ''Y''" "m2 ! (id_off 1 + 1) = CHR ''Y''"
    by (simp_all add: a1 a2 layout_defs del: One_nat_def)
  show ?thesis
    unfolding Let_def e1 snd_conv e2 fst_conv
    using rows sid b b1 by simp
qed

section \<open>Rejected additions\<close>

text \<open>
  Claim C4, as amended. An \<^verbatim>\<open>add_key\<close> that raises one of its errors (NULL
  identifier or key, identifier, comment or key too long, identifier not unique,
  vault full) leaves the whole vault as it was. When the populated slots hold
  terminated identifiers, as they do in every reachable vault, one of them is
  \<open>ident\<close>, and the identifier, the key and the comment pass the size checks,
  \<^verbatim>\<open>add_key\<close> raises "not unique" (also when the vault is full) and leaves the
  vault as it was.
\<close>

theorem add_key_rejected_leaves_vault:
  "(fst (add_key v id_arg key_arg comment_arg) = Inl e \<and> e \<noteq> OutOfRegion \<longrightarrow>
      snd (add_key v id_arg key_arg comment_arg) = v)
   \<and> ((\<forall>j<nitems v. stored_id v j \<noteq> None) \<and> NUL \<notin> set ident
       \<and> i < nitems v \<and> stored_id v i = Some ident
       \<and> length ident < MAX_ID_LENGTH \<and> length data < MAX_KEY_LENGTH
       \<and> (\<forall>c. comment = Some c \<longrightarrow> length c < MAX_COMMENT_LENGTH) \<longrightarrow>
      add_key v (Some ident) (Some data) comment = (Inl NotUnique, v))"
proof (intro conjI impI)
  assume "fst (add_key v id_arg key_arg comment_arg) = Inl e \<and> e \<noteq> OutOfRegion"
  then show "snd (add_key v id_arg key_arg comment_arg) = v"
    by (intro add_key_rejected [of v id_arg key_arg comment_arg e]) simp_all
next
  assume a: "(\<forall>j<nitems v. stored_id v j \<noteq> None) \<and> NUL \<notin> set ident
       \<and> i < nitems v \<and> stored_id v i = Some ident
       \<and> length ident < MAX_ID_LENGTH \<and> length data < MAX_KEY_LENGTH
       \<and> (\<forall>c. comment = Some c \<longrightarrow> length c < MAX_COMMENT_LENGTH)"
  then show "add_key v (Some ident) (Some data) comment = (Inl NotUnique, v)"
    by (intro add_key_duplicate [of v ident i]) simp_all
qed

theorem add_key_rejected_leaves_vault_witness:
  "fst (add_key two_item_vault (Some ''c'') (Some (replicate 1024 CHR ''x'')) None) = Inl KeyTooLong
   \<and> snd (add_key two_item_vault (Some ''c'') (Some (replicate 1024 CHR ''x'')) None) = two_item_vault
   \<and> stored_id two_item_vault 0 = Some ''a''
   \<and> add_key two_item_vault (Some ''a'') (Some ''other'') (Some ''again'')
       = (Inl NotUnique, two_item_vault)"
proof -
  have r: "fst (add_key two_item_vault (Some ''c'') (Some (replicate 1024 CHR ''x'')) None) = Inl KeyTooLong"
    by (simp add: add_key_def layout_defs)
  note t = add_key_rejected_leaves_vault [of two_item_vault "Some ''c''" "Some (replicate 1024 CHR ''x'')"
      None KeyTooLong "''a''" 0 "''other''" "Some ''again''"]
  from t r have u: "snd (add_key two_item_vault (Some ''c'') (Some (replicate 1024 CHR ''x'')) None)
                      = two_item_vault"
    by simp
  from t two_item_vault_terminated
  have d: "add_key two_item_vault (Some ''a'') (Some ''other'') (Some ''again'')
             = (Inl NotUnique, two_item_vault)"
    by (simp add: two_item_vault_facts two_item_vault_stored layout_defs)
  from r u d show ?thesis
    by (simp add: two_item_vault_stored)
qed

text \<open>
  Claim C4 as it was stated has \<^verbatim>\<open>add_key\<close> with a present identifier always raise
  "not unique". With the present identifier \<^verbatim>\<open>a\<close> and a comment of 255 bytes,
  \<^verbatim>\<open>add_key\<close> raises "comment too long" instead: the size checks come first.
\<close>

theorem add_key_present_id_other_error:
  "stored_id two_item_vault 0 = Some ''a''
   \<and> add_key two_item_vault (Some ''a'') (Some ''other'') (Some (replicate 255 CHR ''c''))
       = (Inl CommentTooLong, two_item_vault)
   \<and> fst (add_key two_item_vault (Some ''a'') (Some ''other'') (Some (replicate 255 CHR ''c'')))
       \<noteq> Inl NotUnique"
  by (simp add: two_item_vault_stored add_key_def layout_defs)

section \<open>The snapshot\<close>

text \<open>
  Claim C10. For every vault whose populated slots lie inside the segment (every
  reachable vault is one), \<^verbatim>\<open>vault_copy\<close> (whatever its parameter) returns a copy in which the key field
  of every slot below \<^verbatim>\<open>nitems\<close> is zero and every byte from slot \<^verbatim>\<open>nitems\<close> on is
  the byte of the vault. After \<^verbatim>\<open>add_key('a', 'secret', NULL)\<close> and
  \<^verbatim>\<open>delete_key('a')\<close> the vault holds no item and \<^verbatim>\<open>lookup_key('a')\<close> finds
  nothing, yet the key field of slot 0 of the snapshot still holds the
  \<^verbatim>\<open>bytea\<close> of the deleted key, whose data is \<^verbatim>\<open>secret\<close>.
\<close>

theorem vault_copy_keeps_deleted_key:
  "(id_off (nitems v) \<le> length (items v) \<longrightarrow>
      (\<exists>c. vault_copy strip v = Inr c \<and> nitems c = nitems v
           \<and> (\<forall>j<nitems v. key_bytes c j = replicate MAX_KEY_LENGTH NUL)
           \<and> drop (id_off (nitems v)) (items c) = drop (id_off (nitems v)) (items v)))
   \<and> nitems deleted_vault = 0
   \<and> lookup_key deleted_vault (Some ''a'') = Inr None
   \<and> (\<exists>c. vault_copy True deleted_vault = Inr c
          \<and> take 10 (drop (key_off 0) (items c)) = bytea_4b ''secret''
          \<and> VARDATA (take 10 (drop (key_off 0) (items c))) = ''secret'')"
proof (intro conjI impI)
  assume "id_off (nitems v) \<le> length (items v)"
  from vault_copy_result [OF this, of strip]
  show "\<exists>c. vault_copy strip v = Inr c \<and> nitems c = nitems v
           \<and> (\<forall>j<nitems v. key_bytes c j = replicate MAX_KEY_LENGTH NUL)
           \<and> drop (id_off (nitems v)) (items c) = drop (id_off (nitems v)) (items v)"
    by blast
next
  show "nitems deleted_vault = 0"
    by (rule deleted_vault_facts)
  show "lookup_key deleted_vault (Some ''a'') = Inr None"
    by (simp add: lookup_key_def deleted_vault_facts scan_items_done)
  have "vault_copy True deleted_vault = Inr deleted_vault"
    by (simp add: vault_copy_def deleted_vault_facts strip_keys_loop_done)
  moreover have "VARDATA (bytea_4b ''secret'') = ''secret''"
    by (simp add: VARDATA_def bytea_4b_def VARHDRSZ_def Let_def)
  ultimately show "\<exists>c. vault_copy True deleted_vault = Inr c
          \<and> take 10 (drop (key_off 0) (items c)) = bytea_4b ''secret''
          \<and> VARDATA (take 10 (drop (key_off 0) (items c))) = ''secret''"
    by (simp add: deleted_vault_facts)
qed

theorem vault_copy_keeps_deleted_key_witness:
  "id_off (nitems deleted_vault) \<le> length (items deleted_vault)
   \<and> (\<exists>c. vault_copy True deleted_vault = Inr c \<and> nitems c = 0
          \<and> items c = items deleted_vault)"
proof -
  have seg: "id_off (nitems deleted_vault) \<le> length (items deleted_vault)"
    by (simp add: deleted_vault_facts id_off_def)
  with vault_copy_keeps_deleted_key [of deleted_vault True] show ?thesis
    by (auto simp: deleted_vault_facts id_off_def)
qed

section \<open>Adding into a slot that is not clean\<close>

text \<open>
  Claim C1: after a successful \<^verbatim>\<open>add_key(id, key, comment)\<close>, \<^verbatim>\<open>lookup_key(id)\<close>
  returns the key, also when the slot written had held an item deleted since.
  The code does not do this: \<^verbatim>\<open>add_key\<close> copies \<^verbatim>\<open>strlen(id)\<close> bytes of the
  identifier, without the terminator. On the fresh vault,
  \<^verbatim>\<open>add_key('abcdef', 'p', NULL)\<close> succeeds and \<^verbatim>\<open>lookup_key('abcdef')\<close> returns
  the key; \<^verbatim>\<open>delete_key('abcdef')\<close> empties the vault; \<^verbatim>\<open>add_key('xy', 'q', NULL)\<close>
  succeeds, and then \<^verbatim>\<open>lookup_key('xy')\<close> returns SQL NULL: the identifier
  stored in slot 0 is \<^verbatim>\<open>xycdef\<close>, and it is \<^verbatim>\<open>lookup_key('xycdef')\<close> that returns
  the key \<^verbatim>\<open>q\<close>.
\<close>

theorem add_key_lookup_key_reused_slot:
  "(let r1 = add_key fresh_vault (Some ''abcdef'') (Some ''p'') None;
        s2 = snd (delete_key (snd r1) (Some ''abcdef''));
        r3 = add_key s2 (Some ''xy'') (Some ''q'') None
    in fst r1 = Inr ()
       \<and> lookup_key (snd r1) (Some ''abcdef'') = Inr (Some (bytea_4b ''p''))
       \<and> nitems s2 = 0
       \<and> fst r3 = Inr ()
       \<and> lookup_key (snd r3) (Some ''xy'') = Inr None
       \<and> stored_id (snd r3) 0 = Some ''xycdef''
       \<and> lookup_key (snd r3) (Some ''xycdef'') = Inr (Some (bytea_4b ''q'')))"
proof -
  define m0 where "m0 = store_bytes (replicate 1048564 NUL) 0 ''abcdef''"
  define m1 where "m1 = store_bytes m0 319 (bytea_4b ''p'')"
  define m2 where "m2 = store_bytes m1 0 (take 1343 (drop 0 m1))"
  define n2 where "n2 = store_bytes m2 0 ''xy''"
  define m3 where "m3 = store_bytes n2 319 (bytea_4b ''q'')"
  have l0: "length m0 = 1048564"
    by (simp add: m0_def mem_simps)
  have l1: "length m1 = 1048564"
    by (simp add: m1_def l0 mem_simps)
  have l2: "length m2 = 1048564"
    by (simp add: m2_def l1 mem_simps)
  have k2: "length n2 = 1048564"
    by (simp add: n2_def l2 mem_simps)
  have l3: "length m3 = 1048564"
    by (simp add: m3_def k2 mem_simps)
  have a1: "m1 ! 0 = CHR ''a''" "m1 ! 1 = CHR ''b''" "m1 ! 2 = CHR ''c''" "m1 ! 3 = CHR ''d''"
    "m1 ! 4 = CHR ''e''" "m1 ! 5 = CHR ''f''" "m1 ! 6 = NUL"
    by (simp_all add: m1_def m0_def mem_simps del: One_nat_def)
  have a2: "m2 ! 2 = CHR ''c''" "m2 ! 3 = CHR ''d''"
    "m2 ! 4 = CHR ''e''" "m2 ! 5 = CHR ''f''" "m2 ! 6 = NUL"
    by (simp_all add: m2_def l1 a1 mem_simps del: One_nat_def)
  have a3: "m3 ! 0 = CHR ''x''" "m3 ! 1 = CHR ''y''" "m3 ! 2 = CHR ''c''" "m3 ! 3 = CHR ''d''"
    "m3 ! 4 = CHR ''e''" "m3 ! 5 = CHR ''f''" "m3 ! 6 = NUL"
    by (simp_all add: m3_def n2_def l2 a2 mem_simps del: One_nat_def)
  have h1: "VARSIZE_ANY m1 319 = Some 5"
    by (simp add: VARSIZE_ANY_def m1_def l0 mem_simps bytea_4b_def Let_def VARHDRSZ_def)
  have h3: "VARSIZE_ANY m3 319 = Some 5"
    by (simp add: VARSIZE_ANY_def m3_def k2 mem_simps bytea_4b_def Let_def VARHDRSZ_def)
  have k1: "take 5 (drop 319 m1) = bytea_4b ''p''"
    using take_drop_store_bytes_same [of 319 "bytea_4b ''p''" m0]
    by (simp add: m1_def l0 length_bytea_4b)
  have k3: "take 5 (drop 319 m3) = bytea_4b ''q''"
    using take_drop_store_bytes_same [of 319 "bytea_4b ''q''" n2]
    by (simp add: m3_def k2 length_bytea_4b)
  have e1: "add_key fresh_vault (Some ''abcdef'') (Some ''p'') None
              = (Inr (), \<lparr>lock = 0, maxitems = 780, nitems = 1, items = m1\<rparr>)"
    by (simp add: fresh_vault_eq op_simps length_store_bytes_eval length_bytea_4b m1_def m0_def)
  have e2: "delete_key \<lparr>lock = 0, maxitems = 780, nitems = 1, items = m1\<rparr> (Some ''abcdef'')
              = (Inr (), \<lparr>lock = 0, maxitems = 780, nitems = 0, items = m2\<rparr>)"
    by (simp add: op_simps l1 a1 m2_def del: One_nat_def)
  have e3: "add_key \<lparr>lock = 0, maxitems = 780, nitems = 0, items = m2\<rparr> (Some ''xy'') (Some ''q'') None
              = (Inr (), \<lparr>lock = 0, maxitems = 780, nitems = 1, items = m3\<rparr>)"
    by (simp add: op_simps l2 length_store_bytes_eval length_bytea_4b m3_def n2_def del: One_nat_def)
  have look1: "lookup_key \<lparr>lock = 0, maxitems = 780, nitems = 1, items = m1\<rparr> (Some ''abcdef'')
                 = Inr (Some (bytea_4b ''p''))"
    by (simp add: op_simps l1 a1 h1 k1 del: One_nat_def)
  have look_xy: "lookup_key \<lparr>lock = 0, maxitems = 780, nitems = 1, items = m3\<rparr> (Some ''xy'') = Inr None"
    by (simp add: op_simps l3 a3 del: One_nat_def)
  have look_res: "lookup_key \<lparr>lock = 0, maxitems = 780, nitems = 1, items = m3\<rparr> (Some ''xycdef'')
                    = Inr (Some (bytea_4b ''q''))"
    by (simp add: op_simps l3 a3 h3 k3 del: One_nat_def)
  have "strcmp_eq m3 (id_off 0) ''xycdef'' = Some True"
    by (simp add: l3 a3 layout_defs del: One_nat_def)
  then have sid: "stored_id \<lparr>lock = 0, maxitems = 780, nitems = 1, items = m3\<rparr> 0 = Some ''xycdef''"
    unfolding stored_id_def by (simp add: cstring_at_strcmp_eq)
  show ?thesis
    unfolding Let_def e1 snd_conv e2 e3 fst_conv
    using look1 look_xy look_res sid by simp
qed

text \<open>
  Claim C3: \<^verbatim>\<open>add_key\<close>, \<^verbatim>\<open>delete_key\<close> and \<^verbatim>\<open>delete_keys\<close> keep the identifiers of
  the populated slots pairwise distinct, also when \<^verbatim>\<open>add_key\<close> writes into a
  slot that a deletion left dirty. The code does not do this, by the same
  missing terminator. On the fresh vault, after \<^verbatim>\<open>add_key('xycdef', 'p', NULL)\<close>, \<^verbatim>\<open>add_key('abcdef', 'q', NULL)\<close>
  and \<^verbatim>\<open>delete_key('abcdef')\<close> the stored identifiers are pairwise distinct;
  \<^verbatim>\<open>add_key('xy', 'r', NULL)\<close> succeeds, and then slots 0 and 1 both hold the
  identifier \<^verbatim>\<open>xycdef\<close>.
\<close>

theorem add_key_reused_slot_duplicates_id:
  "(let s1 = snd (add_key fresh_vault (Some ''xycdef'') (Some ''p'') None);
        s2 = snd (add_key s1 (Some ''abcdef'') (Some ''q'') None);
        s3 = snd (delete_key s2 (Some ''abcdef''));
        r4 = add_key s3 (Some ''xy'') (Some ''r'') None
    in ids_distinct s3 \<and> fst r4 = Inr () \<and> nitems (snd r4) = 2
       \<and> stored_id (snd r4) 0 = Some ''xycdef''
       \<and> stored_id (snd r4) 1 = Some ''xycdef''
       \<and> \<not> ids_distinct (snd r4))"
proof -
  define m1 where "m1 = store_bytes (store_bytes (replicate 1048564 NUL) 0 ''xycdef'') 319 (bytea_4b ''p'')"
  define m2 where "m2 = store_bytes (store_bytes m1 1343 ''abcdef'') 1662 (bytea_4b ''q'')"
  define m3 where "m3 = store_bytes m2 1343 (take 1343 (drop 1343 m2))"
  define m4 where "m4 = store_bytes (store_bytes m3 1343 ''xy'') 1662 (bytea_4b ''r'')"
  have l1: "length m1 = 1048564"
    by (simp add: m1_def mem_simps)
  have l2: "length m2 = 1048564"
    by (simp add: m2_def l1 mem_simps)
  have l3: "length m3 = 1048564"
    by (simp add: m3_def l2 mem_simps)
  have l4: "length m4 = 1048564"
    by (simp add: m4_def l3 mem_simps)
  have a1: "m1 ! 0 = CHR ''x''" "m1 ! 1 = CHR ''y''" "m1 ! 2 = CHR ''c''" "m1 ! 3 = CHR ''d''"
    "m1 ! 4 = CHR ''e''" "m1 ! 5 = CHR ''f''" "m1 ! 6 = NUL" "m1 ! 1349 = NUL"
    by (simp_all add: m1_def mem_simps del: One_nat_def)
  have a2: "m2 ! 0 = CHR ''x''" "m2 ! 1 = CHR ''y''" "m2 ! 2 = CHR ''c''" "m2 ! 3 = CHR ''d''"
    "m2 ! 4 = CHR ''e''" "m2 ! 5 = CHR ''f''" "m2 ! 6 = NUL"
    "m2 ! 1343 = CHR ''a''" "m2 ! 1344 = CHR ''b''" "m2 ! 1345 = CHR ''c''" "m2 ! 1346 = CHR ''d''"
    "m2 ! 1347 = CHR ''e''" "m2 ! 1348 = CHR ''f''" "m2 ! 1349 = NUL"
    by (simp_all add: m2_def l1 a1 mem_simps del: One_nat_def)
  have a3: "m3 ! 0 = CHR ''x''" "m3 ! 1 = CHR ''y''" "m3 ! 2 = CHR ''c''" "m3 ! 3 = CHR ''d''"
    "m3 ! 4 = CHR ''e''" "m3 ! 5 = CHR ''f''" "m3 ! 6 = NUL"
    "m3 ! 1345 = CHR ''c''" "m3 ! 1346 = CHR ''d''"
    "m3 ! 1347 = CHR ''e''" "m3 ! 1348 = CHR ''f''" "m3 ! 1349 = NUL"
    by (simp_all add: m3_def l2 a2 mem_simps del: One_nat_def)
  have a4: "m4 ! 0 = CHR ''x''" "m4 ! 1 = CHR ''y''" "m4 ! 2 = CHR ''c''" "m4 ! 3 = CHR ''d''"
    "m4 ! 4 = CHR ''e''" "m4 ! 5 = CHR ''f''" "m4 ! 6 = NUL"
    "m4 ! 1343 = CHR ''x''" "m4 ! 1344 = CHR ''y''" "m4 ! 1345 = CHR ''c''" "m4 ! 1346 = CHR ''d''"
    "m4 ! 1347 = CHR ''e''" "m4 ! 1348 = CHR ''f''" "m4 ! 1349 = NUL"
    by (simp_all add: m4_def l3 a3 mem_simps del: One_nat_def)
  have e1: "add_key fresh_vault (Some ''xycdef'') (Some ''p'') None
              = (Inr (), \<lparr>lock = 0, maxitems = 780, nitems = 1, items = m1\<rparr>)"
    by (simp add: fresh_vault_eq op_simps length_bytea_4b length_store_bytes_eval m1_def)
  have e2: "add_key \<lparr>lock = 0, maxitems = 780, nitems = 1, items = m1\<rparr>
                (Some ''abcdef'') (Some ''q'') None
              = (Inr (), \<lparr>lock = 0, maxitems = 780, nitems = 2, items = m2\<rparr>)"
    by (simp add: op_simps l1 a1 length_bytea_4b length_store_bytes_eval m2_def del: One_nat_def)
  have e3: "delete_key \<lparr>lock = 0, maxitems = 780, nitems = 2, items = m2\<rparr> (Some ''abcdef'')
              = (Inr (), \<lparr>lock = 0, maxitems = 780, nitems = 1, items = m3\<rparr>)"
    by (simp add: op_simps l2 a2 m3_def del: One_nat_def)
  have e4: "add_key \<lparr>lock = 0, maxitems = 780, nitems = 1, items = m3\<rparr> (Some ''xy'') (Some ''r'') None
              = (Inr (), \<lparr>lock = 0, maxitems = 780, nitems = 2, items = m4\<rparr>)"
    by (simp add: op_simps l3 a3 length_bytea_4b length_store_bytes_eval m4_def del: One_nat_def)
  have "strcmp_eq m4 (id_off 0) ''xycdef'' = Some True"
    by (simp add: l4 a4 layout_defs del: One_nat_def)
  then have a: "stored_id \<lparr>lock = 0, maxitems = 780, nitems = 2, items = m4\<rparr> 0 = Some ''xycdef''"
    by (simp add: stored_id_def cstring_at_strcmp_eq)
  have "strcmp_eq m4 (id_off 1) ''xycdef'' = Some True"
    by (simp add: l4 a4 layout_defs del: One_nat_def)
  then have b: "stored_id \<lparr>lock = 0, maxitems = 780, nitems = 2, items = m4\<rparr> 1 = Some ''xycdef''"
    by (simp add: stored_id_def cstring_at_strcmp_eq)
  have u: "[0..<2] = [0, 1::nat]"
    by (simp add: upt_rec)
  from a b u have nd: "\<not> ids_distinct \<lparr>lock = 0, maxitems = 780, nitems = 2, items = m4\<rparr>"
    by (simp add: ids_distinct_def)
  have pre: "ids_distinct \<lparr>lock = 0, maxitems = 780, nitems = 1, items = m3\<rparr>"
    by (simp add: ids_distinct_def)
  show ?thesis
    unfolding Let_def e1 snd_conv e2 e3 e4 fst_conv
    using pre a b nd by simp
qed

section \<open>Adding a key longer than its field\<close>

text \<open>
  Claim C2: \<^verbatim>\<open>add_key\<close> raises a length error whenever a field exceeds its
  bound, in particular when the key with its length header does not fit
  \<^verbatim>\<open>MAX_KEY_LENGTH\<close>, so that a successful \<^verbatim>\<open>add_key\<close> never writes past the key
  field. The code does not do this: \<^verbatim>\<open>add_key\<close> compares \<^verbatim>\<open>VARSIZE_ANY_EXHDR(key)\<close>
  with \<^verbatim>\<open>MAX_KEY_LENGTH\<close> and copies \<^verbatim>\<open>VARSIZE_ANY(key)\<close> bytes. On the fresh
  vault, \<^verbatim>\<open>add_key\<close> of a key of 1021 bytes, 1025 with its header, succeeds and
  writes the last byte of the key into the first byte after the key field of
  slot 0, which is the first byte of the identifier field of slot 1.
\<close>

theorem add_key_writes_past_key_field:
  "(let r = add_key fresh_vault (Some ''a'') (Some (replicate 1020 CHR ''A'' @ ''Z'')) None
    in length (replicate 1020 CHR ''A'' @ ''Z'') = 1021
       \<and> MAX_KEY_LENGTH < length (bytea_4b (replicate 1020 CHR ''A'' @ ''Z''))
       \<and> fst r = Inr ()
       \<and> key_off 0 + MAX_KEY_LENGTH = id_off 1
       \<and> items fresh_vault ! id_off 1 = NUL
       \<and> items (snd r) ! id_off 1 = CHR ''Z'')"
  by (simp add: fresh_vault_eq op_simps mem_simps nth_append bytea_4b_def)

text \<open>Two runs of \<^verbatim>\<open>add_key\<close> with new identifiers on a vault that holds no item.\<close>

lemma overflow_run:
  "(let r1 = add_key fresh_vault (Some ''k'') (Some (replicate 1020 CHR ''A'' @ ''XY'')) None;
        r2 = add_key (snd r1) (Some ''a'') (Some ''q'') None;
        r3 = add_key (snd r2) (Some ''aY'') (Some ''r'') None
    in fst r1 = Inr () \<and> fst r2 = Inr () \<and> fst r3 = Inl NotUnique \<and> nitems (snd r3) = 2)"
  by (simp add: fresh_vault_eq op_simps mem_simps nth_append bytea_4b_def)

lemma reused_slot_run:
  "(let s1 = snd (add_key fresh_vault (Some ''abc'') (Some ''p'') None);
        s2 = snd (delete_key s1 (Some ''abc''));
        r3 = add_key s2 (Some ''a'') (Some ''q'') None;
        r4 = add_key (snd r3) (Some ''abc'') (Some ''r'') None
    in nitems s2 = 0 \<and> maxitems s2 = 780
       \<and> fst r3 = Inr () \<and> fst r4 = Inl NotUnique \<and> nitems (snd r4) = 1)"
proof -
  define m1 where "m1 = store_bytes (store_bytes (replicate 1048564 NUL) 0 ''abc'') 319 (bytea_4b ''p'')"
  define m2 where "m2 = store_bytes m1 0 (take 1343 (drop 0 m1))"
  define m3 where "m3 = store_bytes (store_bytes m2 0 ''a'') 319 (bytea_4b ''q'')"
  have l1: "length m1 = 1048564"
    by (simp add: m1_def mem_simps)
  have l2: "length m2 = 1048564"
    by (simp add: m2_def l1 mem_simps)
  have l3: "length m3 = 1048564"
    by (simp add: m3_def l2 mem_simps)
  have a1: "m1 ! 0 = CHR ''a''" "m1 ! 1 = CHR ''b''" "m1 ! 2 = CHR ''c''" "m1 ! 3 = NUL"
    by (simp_all add: m1_def mem_simps del: One_nat_def)
  have a2: "m2 ! 1 = CHR ''b''" "m2 ! 2 = CHR ''c''" "m2 ! 3 = NUL"
    by (simp_all add: m2_def l1 a1 mem_simps del: One_nat_def)
  have a3: "m3 ! 0 = CHR ''a''" "m3 ! 1 = CHR ''b''" "m3 ! 2 = CHR ''c''" "m3 ! 3 = NUL"
    by (simp_all add: m3_def l2 a2 mem_simps del: One_nat_def)
  have e1: "add_key fresh_vault (Some ''abc'') (Some ''p'') None
              = (Inr (), \<lparr>lock = 0, maxitems = 780, nitems = 1, items = m1\<rparr>)"
    by (simp add: fresh_vault_eq op_simps length_store_bytes_eval length_bytea_4b m1_def)
  have e2: "delete_key \<lparr>lock = 0, maxitems = 780, nitems = 1, items = m1\<rparr> (Some ''abc'')
              = (Inr (), \<lparr>lock = 0, maxitems = 780, nitems = 0, items = m2\<rparr>)"
    by (simp add: op_simps l1 a1 m2_def del: One_nat_def)
  have e3: "add_key \<lparr>lock = 0, maxitems = 780, nitems = 0, items = m2\<rparr> (Some ''a'') (Some ''q'') None
              = (Inr (), \<lparr>lock = 0, maxitems = 780, nitems = 1, items = m3\<rparr>)"
    by (simp add: op_simps l2 length_store_bytes_eval length_bytea_4b m3_def del: One_nat_def)
  have e4: "add_key \<lparr>lock = 0, maxitems = 780, nitems = 1, items = m3\<rparr> (Some ''abc'') (Some ''r'') None
              = (Inl NotUnique, \<lparr>lock = 0, maxitems = 780, nitems = 1, items = m3\<rparr>)"
    by (simp add: op_simps l3 a3 del: One_nat_def)
  show ?thesis
    unfolding Let_def e1 snd_conv e2 e3 e4 fst_conv by simp
qed

text \<open>
  Claim C5: from an empty vault, \<^verbatim>\<open>add_key\<close> with pairwise distinct valid
  identifiers succeeds as many times as the vault has slots. The code does not
  do this. The fresh vault holds no item and has room for 780. First run: \<^verbatim>\<open>add_key\<close> of \<^verbatim>\<open>k\<close> with a key of 1022 bytes that ends in \<^verbatim>\<open>XY\<close>
  succeeds, \<^verbatim>\<open>add_key\<close> of \<^verbatim>\<open>a\<close> succeeds, and the third \<^verbatim>\<open>add_key\<close>, of the new
  identifier \<^verbatim>\<open>aY\<close>, raises "not unique" with two items in the vault: the key of
  the first call overflowed its field, and slot 1 holds \<^verbatim>\<open>a\<close> followed by its
  \<^verbatim>\<open>Y\<close>. Second run, with short keys only: after \<^verbatim>\<open>add_key\<close> and \<^verbatim>\<open>delete_key\<close>
  of \<^verbatim>\<open>abc\<close> the vault is empty again; \<^verbatim>\<open>add_key\<close> of \<^verbatim>\<open>a\<close> succeeds, and
  \<^verbatim>\<open>add_key\<close> of the new identifier \<^verbatim>\<open>abc\<close> raises "not unique" with one item
  in the vault: slot 0 holds \<^verbatim>\<open>a\<close> followed by the \<^verbatim>\<open>bc\<close> of the deleted item.
\<close>

theorem add_key_distinct_ids_not_unique:
  "nitems fresh_vault = 0 \<and> maxitems fresh_vault = 780
   \<and> (let r1 = add_key fresh_vault (Some ''k'') (Some (replicate 1020 CHR ''A'' @ ''XY'')) None;
           r2 = add_key (snd r1) (Some ''a'') (Some ''q'') None;
           r3 = add_key (snd r2) (Some ''aY'') (Some ''r'') None
       in fst r1 = Inr () \<and> fst r2 = Inr () \<and> fst r3 = Inl NotUnique \<and> nitems (snd r3) = 2)
   \<and> (let s1 = snd (add_key fresh_vault (Some ''abc'') (Some ''p'') None);
           s2 = snd (delete_key s1 (Some ''abc''));
           r3 = add_key s2 (Some ''a'') (Some ''q'') None;
           r4 = add_key (snd r3) (Some ''abc'') (Some ''r'') None
       in nitems s2 = 0 \<and> maxitems s2 = 780
          \<and> fst r3 = Inr () \<and> fst r4 = Inl NotUnique \<and> nitems (snd r4) = 1)"
  using overflow_run reused_slot_run by (simp add: fresh_vault_eq)

end
